theory Spec2Isabelle
  imports Main "HOL-Library.Word"
begin

unbundle bit_operations_syntax

section \<open>Platform selection (PlatformAtomic.h, LayeredHashMapMathematics.h)\<close>

text \<open>
  The sources select their tables and their atomic primitives at compile time.
  PlatformAtomic.h distinguishes MSVC on x86 and on AMD64 from every other compiler
  (which gets \<open>std::atomic\<close>); LayeredHashMapMathematics.h distinguishes
  \<open>sizeof(size_t) <= 4\<close> from the rest. The four combinations are the platforms of
  the model. A \<open>size_t\<close> value is a \<open>nat\<close> below \<open>2 ^ size_t_bits\<close>; every operation
  of the source that can leave that range has its wrap-around written out.
\<close>

datatype platform = MSVC_IX86 | MSVC_AMD64 | Other32 | Other64

fun sizeof_size_t :: "platform \<Rightarrow> nat" where
  "sizeof_size_t MSVC_IX86 = 4"
| "sizeof_size_t MSVC_AMD64 = 8"
| "sizeof_size_t Other32 = 4"
| "sizeof_size_t Other64 = 8"

fun is_msvc :: "platform \<Rightarrow> bool" where
  "is_msvc MSVC_IX86 = True"
| "is_msvc MSVC_AMD64 = True"
| "is_msvc Other32 = False"
| "is_msvc Other64 = False"

definition size_t_bits :: "platform \<Rightarrow> nat" where
  "size_t_bits p = 8 * sizeof_size_t p"

text \<open>Unsigned arithmetic of \<open>size_t\<close>: sums and differences wrap.\<close>

definition size_t_add :: "platform \<Rightarrow> nat \<Rightarrow> nat \<Rightarrow> nat" where
  "size_t_add p a b = (a + b) mod 2 ^ size_t_bits p"

definition size_t_sub :: "platform \<Rightarrow> nat \<Rightarrow> nat \<Rightarrow> nat" where
  "size_t_sub p a b = (a + 2 ^ size_t_bits p - b mod 2 ^ size_t_bits p) mod 2 ^ size_t_bits p"

section \<open>Integer logarithm (LayeredHashMapMathematics.h)\<close>

definition b32 :: "nat list" where
  "b32 = [0x2, 0xC, 0xF0, 0xFF00, 0xFFFF0000]"

definition b64 :: "nat list" where
  "b64 = [0x2, 0xC, 0xF0, 0xFF00, 0xFFFF0000, 0xFFFFFFFF00000000]"

definition b :: "platform \<Rightarrow> nat list" where
  "b p = (if sizeof_size_t p \<le> 4 then b32 else b64)"

definition S :: "nat list" where
  "S = [1, 2, 4, 8, 16, 32]"

definition Log2Iterations :: "platform \<Rightarrow> nat" where
  "Log2Iterations p = (if sizeof_size_t p \<le> 4 then 4 else 5)"

text \<open>
  The loop \<open>for (i = Log2Iterations; i >= 0; i--)\<close>: the first argument counts the
  iterations left, so that \<open>Suc i\<close> runs the body at index \<open>i\<close>.
\<close>

fun IntLog2_loop :: "platform \<Rightarrow> nat \<Rightarrow> nat \<Rightarrow> nat \<Rightarrow> nat" where
  "IntLog2_loop p 0 X Result = Result"
| "IntLog2_loop p (Suc i) X Result =
     (if X AND (b p ! i) \<noteq> 0
      then IntLog2_loop p i (drop_bit (S ! i) X) (Result OR (S ! i))
      else IntLog2_loop p i X Result)"

definition IntLog2 :: "platform \<Rightarrow> nat \<Rightarrow> nat" where
  "IntLog2 p X = IntLog2_loop p (Suc (Log2Iterations p)) X 0"

section \<open>Prime and power-of-two tables\<close>

definition Primes_32b :: "nat list" where
  "Primes_32b = [
    0, 757, 1783, 3833, 7937,
    16141, 32537, 65327, 130873,
    261977, 524123, 1048433, 2097013,
    4194167, 8388473, 16777121, 33554341,
    67108777, 134217649, 268435399, 536870869,
    1073741789, 2147483629, 4294967291]"

definition Primes_64b :: "nat list" where
  "Primes_64b = [
    0, 2633, 6733, 14929, 31321, 64091,
    129643, 260723, 522883, 1047173, 2095759,
    4192919, 8387231, 16775849, 33553103, 67107569,
    134216461, 268434193, 536869651, 1073740571, 2147482417,
    4294966099, 8589933397, 17179867997, 34359737227, 68719475599,
    137438952341, 274877905823, 549755812831, 1099511626727, 2199023254517,
    4398046510073, 8796093021181, 17592186043451, 35184372087881, 70368744176729,
    140737488354413, 281474976709757, 562949953420457, 1125899906841811, 2251799813684467,
    4503599627369863, 9007199254740397]"

definition NextPower_32b :: "nat list" where
  "NextPower_32b = [
    2 ^ 10 - 1, 2 ^ 11 - 1, 2 ^ 12 - 1, 2 ^ 13 - 1,
    2 ^ 14 - 1, 2 ^ 15 - 1, 2 ^ 16 - 1, 2 ^ 17 - 1,
    2 ^ 18 - 1, 2 ^ 19 - 1, 2 ^ 20 - 1, 2 ^ 21 - 1,
    2 ^ 22 - 1, 2 ^ 23 - 1, 2 ^ 24 - 1, 2 ^ 25 - 1,
    2 ^ 26 - 1, 2 ^ 27 - 1, 2 ^ 28 - 1, 2 ^ 29 - 1,
    2 ^ 30 - 1, 2 ^ 31 - 1, 4294967295]"

definition NextPower_64b :: "nat list" where
  "NextPower_64b = [
    2 ^ 12 - 1, 2 ^ 13 - 1,
    2 ^ 14 - 1, 2 ^ 15 - 1, 2 ^ 16 - 1, 2 ^ 17 - 1,
    2 ^ 18 - 1, 2 ^ 19 - 1, 2 ^ 20 - 1, 2 ^ 21 - 1,
    2 ^ 22 - 1, 2 ^ 23 - 1, 2 ^ 24 - 1, 2 ^ 25 - 1,
    2 ^ 26 - 1, 2 ^ 27 - 1, 2 ^ 28 - 1, 2 ^ 29 - 1,
    2 ^ 30 - 1, 2 ^ 31 - 1, 2 ^ 32 - 1, 2 ^ 33 - 1,
    2 ^ 34 - 1, 2 ^ 35 - 1, 2 ^ 36 - 1, 2 ^ 37 - 1,
    2 ^ 38 - 1, 2 ^ 39 - 1, 2 ^ 40 - 1, 2 ^ 41 - 1,
    2 ^ 42 - 1, 2 ^ 43 - 1, 2 ^ 44 - 1, 2 ^ 45 - 1,
    2 ^ 46 - 1, 2 ^ 47 - 1, 2 ^ 48 - 1, 2 ^ 49 - 1,
    2 ^ 50 - 1, 2 ^ 51 - 1, 2 ^ 52 - 1, 2 ^ 53 - 1]"

definition NextPower_tab :: "platform \<Rightarrow> nat list" where
  "NextPower_tab p = (if sizeof_size_t p \<le> 4 then NextPower_32b else NextPower_64b)"

definition Primes_tab :: "platform \<Rightarrow> nat list" where
  "Primes_tab p = (if sizeof_size_t p \<le> 4 then Primes_32b else Primes_64b)"

definition LowestExponent :: "platform \<Rightarrow> nat" where
  "LowestExponent p = (if sizeof_size_t p \<le> 4 then 9 else 11)"

definition MaxLayerCount :: "platform \<Rightarrow> nat" where
  "MaxLayerCount p = (if sizeof_size_t p \<le> 4 then 23 else 42)"

definition LowestNextPower :: "platform \<Rightarrow> nat" where
  "LowestNextPower p = (if sizeof_size_t p \<le> 4 then 512 else 2048)"

text \<open>
  \<open>Primes\<close> points at the second entry of the underlying array, so that
  \<open>Primes[-1]\<close> is the leading 0. The index is a \<open>size_t\<close>: \<open>LayerIdx - 1\<close> at
  \<open>LayerIdx = 0\<close> wraps to the largest value and the address computation wraps back to
  the leading entry. A read outside the underlying array has no value (\<open>None\<close>).
\<close>

definition Primes :: "platform \<Rightarrow> nat \<Rightarrow> nat option" where
  "Primes p i =
     (let j = size_t_add p i 1
      in if j < length (Primes_tab p) then Some (Primes_tab p ! j) else None)"

definition NextPower :: "platform \<Rightarrow> nat \<Rightarrow> nat option" where
  "NextPower p i =
     (if i < length (NextPower_tab p) then Some (NextPower_tab p ! i) else None)"

section \<open>Slot addressing (LayeredHashMap.h)\<close>

text \<open>
  The template parameters of the map: the platform, the hash functor, the equality
  predicate, and the default-constructed pair \<open>(K(), T())\<close> that a freshly allocated
  slot holds in \<open>Main\<close>.
\<close>

record ('k, 'v) traits =
  plat :: platform
  Hash :: "'k \<Rightarrow> nat"
  Pred :: "'k \<Rightarrow> 'k \<Rightarrow> bool"
  Default_Pair :: "'k \<times> 'v"

text \<open>
  \<open>RawHash\<close> reads \<open>NextPower[LayerLastIdx]\<close> and \<open>Primes[LayerLastIdx]\<close>; the result
  is \<open>None\<close> where one of the reads leaves its table.
\<close>

definition RawHash_of :: "platform \<Rightarrow> nat \<Rightarrow> nat \<Rightarrow> nat option" where
  "RawHash_of p LayerLastIdx h =
     (case NextPower p LayerLastIdx of
        None \<Rightarrow> None
      | Some np \<Rightarrow>
          (case Primes p LayerLastIdx of
             None \<Rightarrow> None
           | Some pr \<Rightarrow> if pr = 0 then None else Some ((h AND np) mod pr)))"

definition RawHash :: "('k, 'v) traits \<Rightarrow> nat \<Rightarrow> 'k \<Rightarrow> nat option" where
  "RawHash T LayerLastIdx Key =
     RawHash_of (plat T) LayerLastIdx (Hash T Key mod 2 ^ size_t_bits (plat T))"

definition GetLayer :: "platform \<Rightarrow> nat \<Rightarrow> nat option" where
  "GetLayer p rawHash =
     (let LayerIdx =
            size_t_sub p
              (IntLog2 p (size_t_add p rawHash
                 ((if rawHash < LowestNextPower p then 1 else 0) * LowestNextPower p)))
              (LowestExponent p)
      in case Primes p LayerIdx of
           None \<Rightarrow> None
         | Some pr \<Rightarrow> Some (size_t_add p LayerIdx (if rawHash \<ge> pr then 1 else 0)))"

definition GetSlot :: "platform \<Rightarrow> nat \<Rightarrow> nat \<Rightarrow> nat option" where
  "GetSlot p rawHash LayerIdx =
     (case Primes p (size_t_sub p LayerIdx 1) of
        None \<Rightarrow> None
      | Some pr \<Rightarrow> Some (size_t_sub p rawHash pr))"

text \<open>The first three lines of \<open>Write\<close>, \<open>Delete\<close> and \<open>Read\<close>.\<close>

definition slot_address :: "platform \<Rightarrow> nat \<Rightarrow> nat \<Rightarrow> (nat \<times> nat) option" where
  "slot_address p LayerLastIdx h =
     (case RawHash_of p LayerLastIdx h of
        None \<Rightarrow> None
      | Some rawHash \<Rightarrow>
          (case GetLayer p rawHash of
             None \<Rightarrow> None
           | Some LayerIdx \<Rightarrow>
               (case GetSlot p rawHash LayerIdx of
                  None \<Rightarrow> None
                | Some SlotIdx \<Rightarrow> Some (LayerIdx, SlotIdx))))"

section \<open>Slot lock (AtomicRWLock.h)\<close>

text \<open>
  The lock word is a \<open>uint_fast32_t\<close>; its low 32 bits are modelled. The model is of a
  sequential execution: no other thread changes the word while an operation runs, so a
  spin loop either leaves at its first test or never. Never leaving is \<open>None\<close>.
  \<open>read_lock\<close> and \<open>write_lock\<close> return the new lock word and the captured
  \<open>VALUE\<close> bit.
\<close>

type_synonym lock_word = "32 word"

definition EMPTY :: lock_word where
  "EMPTY = 0x00000000"

definition POPULATED :: lock_word where
  "POPULATED = 0x80000000"

definition VALUE_BITS_MASK :: lock_word where
  "VALUE_BITS_MASK = 0x80000000"

definition WRITER_BIT_MASK :: lock_word where
  "WRITER_BIT_MASK = 0x40000000"

definition READER_COUNT_MASK :: lock_word where
  "READER_COUNT_MASK = 0x3FFFFFFF"

definition read_lock :: "lock_word \<Rightarrow> (lock_word \<times> lock_word) option" where
  "read_lock ThisLock =
     (if ThisLock AND WRITER_BIT_MASK \<noteq> 0 then None
      else Some (ThisLock + 1, ThisLock AND VALUE_BITS_MASK))"

definition write_lock :: "lock_word \<Rightarrow> (lock_word \<times> lock_word) option" where
  "write_lock ThisLock =
     (if ThisLock AND WRITER_BIT_MASK \<noteq> 0 then None
      else let NewLock = ThisLock OR WRITER_BIT_MASK
           in if NewLock AND READER_COUNT_MASK \<noteq> 0 then None
              else Some (NewLock, ThisLock AND VALUE_BITS_MASK))"

definition write_unlock :: "lock_word \<Rightarrow> lock_word \<Rightarrow> lock_word" where
  "write_unlock ThisLock X = X"

definition read_unlock :: "lock_word \<Rightarrow> lock_word" where
  "read_unlock ThisLock = ThisLock - 1"

section \<open>Per-thread counter (ThreadManager.h, PlatformAtomic.h)\<close>

text \<open>
  \<open>Value\<close> and \<open>Threshold\<close> are signed words; they count stored pairs, which stay
  far below the signed range, and are modelled as integers. Conversions between the
  signed and the unsigned word type are written out.
\<close>

record ThreadValue =
  Value :: int
  Threshold :: int

definition to_uInt :: "platform \<Rightarrow> int \<Rightarrow> nat" where
  "to_uInt p i = nat (i mod 2 ^ size_t_bits p)"

definition to_sInt :: "platform \<Rightarrow> nat \<Rightarrow> int" where
  "to_sInt p n =
     (let m = n mod 2 ^ size_t_bits p
      in if m < 2 ^ (size_t_bits p - 1) then int m else int m - 2 ^ size_t_bits p)"

definition GetThreadValue :: "ThreadValue \<Rightarrow> int" where
  "GetThreadValue tv = Value tv"

definition AdjustThreadThreshold :: "ThreadValue \<Rightarrow> int \<Rightarrow> ThreadValue" where
  "AdjustThreadThreshold tv Adjustment = tv\<lparr>Threshold := Value tv + Adjustment\<rparr>"

text \<open>
  \<open>INCREMENT(X)\<close> is \<open>(++X)\<close> under MSVC, whose value is the new \<open>X\<close>, and
  \<open>X.fetch_add(1)\<close> elsewhere, whose value is the previous \<open>X\<close>. The macro returns
  the updated counter and the value of the expression. The counter is an unbounded
  integer here; in the source it is a signed word of the platform, whose wrap-around
  at its largest value is left out.
\<close>

definition INCREMENT :: "platform \<Rightarrow> int \<Rightarrow> int \<times> int" where
  "INCREMENT p X = (X + 1, if is_msvc p then X + 1 else X)"

definition DECREMENT :: "platform \<Rightarrow> int \<Rightarrow> int \<times> int" where
  "DECREMENT p X = (X - 1, if is_msvc p then X - 1 else X)"

text \<open>
  \<open>Increment\<close> and \<open>Decrement\<close> change the counter and call into the manager; the
  calls they make, in order, are returned with the new counter.
\<close>

datatype manager_call = Call_UpdateManager | Call_WaitForGlobalValue

definition ThreadValue_Increment :: "platform \<Rightarrow> ThreadValue \<Rightarrow> ThreadValue \<times> manager_call list" where
  "ThreadValue_Increment p tv =
     (let (X, r) = INCREMENT p (Value tv);
          tv' = tv\<lparr>Value := X\<rparr>
      in (tv', (if r \<ge> Threshold tv' then [Call_UpdateManager] else [])
                @ [Call_WaitForGlobalValue]))"

definition ThreadValue_Decrement :: "platform \<Rightarrow> ThreadValue \<Rightarrow> ThreadValue \<times> manager_call list" where
  "ThreadValue_Decrement p tv =
     (let (X, r) = DECREMENT p (Value tv)
      in (tv\<lparr>Value := X\<rparr>, [Call_WaitForGlobalValue]))"

section \<open>The map and its manager (LayeredHashMap.h, ThreadManager.h)\<close>

record ('k, 'v) Slot =
  Lock :: lock_word
  Main :: "'k \<times> 'v"
  Collisions :: "('k \<times> 'v) list"

text \<open>
  The state of one map instance in a sequential execution: its slots and last layer
  index, and the part of \<open>Managers[InstanceIdx]\<close> and of the thread-local counters that
  the instance uses. \<open>Values_self\<close> is \<open>Values[InstanceIdx]\<close> of the executing thread;
  \<open>ThreadValues_rest\<close> are the counters that other threads have registered with the
  manager. The manager's own locks are free between operations of a sequential
  execution and are not part of the state. The callback of the manager is
  \<open>RESIZE_FUNC\<close>, installed by \<open>MAP_INIT\<close>.
\<close>

record ('k, 'v) LayeredHashMap =
  Slots :: "('k, 'v) Slot list list"
  LayerLastIdx :: nat
  DTOR_ThreadValuesSum :: int
  Values_self :: ThreadValue
  ThreadValues_rest :: "ThreadValue list"

text \<open>
  What can stop an operation: the \<open>std::out_of_range\<close> that \<open>Read\<close> throws, an access
  outside a table, the layer array or a layer (undefined behaviour in the source), and
  a spin loop that never leaves.
\<close>

datatype failure = out_of_range | OutOfBounds | Spin

definition default_Slot :: "('k, 'v) traits \<Rightarrow> ('k, 'v) Slot" where
  "default_Slot T = \<lparr>Lock = EMPTY, Main = Default_Pair T, Collisions = []\<rparr>"

text \<open>\<open>std::vector::resize\<close>: truncate, or pad with default-constructed elements.\<close>

definition resize :: "'a \<Rightarrow> 'a list \<Rightarrow> nat \<Rightarrow> 'a list" where
  "resize d xs n = take n xs @ replicate (n - length xs) d"

definition AllocateLayer :: "('k, 'v) traits \<Rightarrow> ('k, 'v) LayeredHashMap \<Rightarrow> failure + ('k, 'v) LayeredHashMap" where
  "AllocateLayer T s =
     (case Primes (plat T) (LayerLastIdx s) of
        None \<Rightarrow> Inl OutOfBounds
      | Some OldPrime \<Rightarrow>
          (let n = size_t_add (plat T) (LayerLastIdx s) 1
           in case Primes (plat T) n of
                None \<Rightarrow> Inl OutOfBounds
              | Some NewPrime \<Rightarrow>
                  (let DeltaPrime = size_t_sub (plat T) NewPrime OldPrime
                   in if n < length (Slots s)
                      then Inr (s\<lparr>LayerLastIdx := n,
                                  Slots := (Slots s)[n := resize (default_Slot T) (Slots s ! n) DeltaPrime]\<rparr>)
                      else Inl OutOfBounds)))"

definition RESIZE_FUNC :: "('k, 'v) traits \<Rightarrow> ('k, 'v) LayeredHashMap \<Rightarrow> nat \<Rightarrow> failure + (('k, 'v) LayeredHashMap \<times> nat)" where
  "RESIZE_FUNC T s GlobalValue =
     (case Primes (plat T) (LayerLastIdx s) of
        None \<Rightarrow> Inl OutOfBounds
      | Some pr \<Rightarrow>
          if GlobalValue > pr
          then (case AllocateLayer T s of
                  Inl e \<Rightarrow> Inl e
                | Inr s' \<Rightarrow>
                    (case Primes (plat T) (LayerLastIdx s') of
                       None \<Rightarrow> Inl OutOfBounds
                     | Some pr' \<Rightarrow> Inr (s', pr')))
          else Inr (s, pr))"

definition ThreadValuesSum :: "('k, 'v) LayeredHashMap \<Rightarrow> int" where
  "ThreadValuesSum s =
     GetThreadValue (Values_self s) + sum_list (map GetThreadValue (ThreadValues_rest s))"

text \<open>
  \<open>_UpdateManagerInternal\<close>. \<open>Goal\<close> is the local \<open>Threshold\<close> of the source, the
  value of the callback. The margin is
  \<open>std::max(_sInt(Threshold - GlobalValue), _sInt(Threshold * MAX_ERROR)) / uInt(size)\<close>:
  the difference is unsigned and wraps, the quotient is unsigned. The product with
  \<open>MAX_ERROR = 0.00001\<close> is a \<open>double\<close> truncated to an integer; the model takes the
  exact quotient by 100000, truncated.
\<close>

definition UpdateManagerInternal :: "('k, 'v) traits \<Rightarrow> ('k, 'v) LayeredHashMap \<Rightarrow> failure + ('k, 'v) LayeredHashMap" where
  "UpdateManagerInternal T s =
     (let GlobalValue = to_uInt (plat T) (ThreadValuesSum s + DTOR_ThreadValuesSum s)
      in case RESIZE_FUNC T s GlobalValue of
           Inl e \<Rightarrow> Inl e
         | Inr (s', Goal) \<Rightarrow>
             (let NewMargin =
                    to_uInt (plat T)
                      (max (to_sInt (plat T) (size_t_sub (plat T) Goal GlobalValue))
                           (to_sInt (plat T) (Goal div 100000)))
                    div (1 + length (ThreadValues_rest s'));
                  adj = (\<lambda>tv. AdjustThreadThreshold tv (to_sInt (plat T) NewMargin))
              in Inr (s'\<lparr>Values_self := adj (Values_self s'),
                          ThreadValues_rest := map adj (ThreadValues_rest s')\<rparr>)))"

text \<open>
  \<open>UpdateManager\<close> finds \<open>ManagerLock\<close> free and runs the internal update;
  \<open>WaitForGlobalValue\<close> finds the \<open>ValueUniqueLock\<close> not owned and returns.
\<close>

definition UpdateManager :: "('k, 'v) traits \<Rightarrow> ('k, 'v) LayeredHashMap \<Rightarrow> failure + ('k, 'v) LayeredHashMap" where
  "UpdateManager T s = UpdateManagerInternal T s"

definition WaitForGlobalValue :: "('k, 'v) LayeredHashMap \<Rightarrow> failure + ('k, 'v) LayeredHashMap" where
  "WaitForGlobalValue s = Inr s"

fun run_calls :: "('k, 'v) traits \<Rightarrow> manager_call list \<Rightarrow> ('k, 'v) LayeredHashMap \<Rightarrow> failure + ('k, 'v) LayeredHashMap" where
  "run_calls T [] s = Inr s"
| "run_calls T (c # cs) s =
     (case (case c of Call_UpdateManager \<Rightarrow> UpdateManager T s
                    | Call_WaitForGlobalValue \<Rightarrow> WaitForGlobalValue s) of
        Inl e \<Rightarrow> Inl e
      | Inr s' \<Rightarrow> run_calls T cs s')"

definition Increment :: "('k, 'v) traits \<Rightarrow> ('k, 'v) LayeredHashMap \<Rightarrow> failure + ('k, 'v) LayeredHashMap" where
  "Increment T s =
     (let (tv, calls) = ThreadValue_Increment (plat T) (Values_self s)
      in run_calls T calls (s\<lparr>Values_self := tv\<rparr>))"

definition Decrement :: "('k, 'v) traits \<Rightarrow> ('k, 'v) LayeredHashMap \<Rightarrow> failure + ('k, 'v) LayeredHashMap" where
  "Decrement T s =
     (let (tv, calls) = ThreadValue_Decrement (plat T) (Values_self s)
      in run_calls T calls (s\<lparr>Values_self := tv\<rparr>))"

definition GetGlobalValue :: "('k, 'v) traits \<Rightarrow> ('k, 'v) LayeredHashMap \<Rightarrow> nat" where
  "GetGlobalValue T s = to_uInt (plat T) (ThreadValuesSum s + DTOR_ThreadValuesSum s)"

definition GetSize :: "('k, 'v) traits \<Rightarrow> ('k, 'v) LayeredHashMap \<Rightarrow> nat" where
  "GetSize T s = GetGlobalValue T s"

subsection \<open>Slot access\<close>

definition in_bounds :: "('k, 'v) LayeredHashMap \<Rightarrow> nat \<Rightarrow> nat \<Rightarrow> bool" where
  "in_bounds s LayerIdx SlotIdx =
     (LayerIdx < length (Slots s) \<and> SlotIdx < length (Slots s ! LayerIdx))"

definition get_Slot :: "('k, 'v) LayeredHashMap \<Rightarrow> nat \<Rightarrow> nat \<Rightarrow> ('k, 'v) Slot" where
  "get_Slot s LayerIdx SlotIdx = Slots s ! LayerIdx ! SlotIdx"

definition set_Slot :: "('k, 'v) LayeredHashMap \<Rightarrow> nat \<Rightarrow> nat \<Rightarrow> ('k, 'v) Slot \<Rightarrow> ('k, 'v) LayeredHashMap" where
  "set_Slot s LayerIdx SlotIdx x =
     s\<lparr>Slots := (Slots s)[LayerIdx := (Slots s ! LayerIdx)[SlotIdx := x]]\<rparr>"

text \<open>The destructor of \<open>WriteWrapper\<close>: \<open>write_unlock\<close> with the stored value.\<close>

definition release :: "('k, 'v) LayeredHashMap \<Rightarrow> nat \<Rightarrow> nat \<Rightarrow> lock_word \<Rightarrow> ('k, 'v) LayeredHashMap" where
  "release s LayerIdx SlotIdx Val =
     (let x = get_Slot s LayerIdx SlotIdx
      in set_Slot s LayerIdx SlotIdx (x\<lparr>Lock := write_unlock (Lock x) Val\<rparr>))"

text \<open>
  \<open>std::find_if\<close> over a vector: the position of the first element that satisfies the
  predicate, or the length of the vector (\<open>end()\<close>).
\<close>

fun find_if :: "('a \<Rightarrow> bool) \<Rightarrow> 'a list \<Rightarrow> nat" where
  "find_if P [] = 0"
| "find_if P (x # xs) = (if P x then 0 else Suc (find_if P xs))"

definition key_address :: "('k, 'v) traits \<Rightarrow> ('k, 'v) LayeredHashMap \<Rightarrow> 'k \<Rightarrow> (nat \<times> nat) option" where
  "key_address T s Key =
     slot_address (plat T) (LayerLastIdx s) (Hash T Key mod 2 ^ size_t_bits (plat T))"

subsection \<open>Write\<close>

definition Write :: "('k, 'v) traits \<Rightarrow> ('k, 'v) LayeredHashMap \<Rightarrow> 'k \<Rightarrow> 'v \<Rightarrow> failure + ('k, 'v) LayeredHashMap" where
  "Write T s Key Val =
     (case key_address T s Key of
        None \<Rightarrow> Inl OutOfBounds
      | Some (LayerIdx, SlotIdx) \<Rightarrow>
          if \<not> in_bounds s LayerIdx SlotIdx then Inl OutOfBounds
          else
            (let x = get_Slot s LayerIdx SlotIdx
             in case write_lock (Lock x) of
                  None \<Rightarrow> Inl Spin
                | Some (Held, WriteLock) \<Rightarrow>
                    if WriteLock = EMPTY then
                      (case Increment T (set_Slot s LayerIdx SlotIdx
                                           (x\<lparr>Lock := Held, Main := (Key, Val)\<rparr>)) of
                         Inl e \<Rightarrow> Inl e
                       | Inr s' \<Rightarrow> Inr (release s' LayerIdx SlotIdx POPULATED))
                    else if Pred T (fst (Main x)) Key then
                      Inr (release (set_Slot s LayerIdx SlotIdx
                                      (x\<lparr>Lock := Held, Main := (fst (Main x), Val)\<rparr>))
                             LayerIdx SlotIdx POPULATED)
                    else
                      (let CollisionIt = find_if (\<lambda>KeyVal. Pred T (fst KeyVal) Key) (Collisions x)
                       in if CollisionIt = length (Collisions x) then
                            (case Increment T (set_Slot s LayerIdx SlotIdx
                                                 (x\<lparr>Lock := Held,
                                                    Collisions := Collisions x @ [(Key, Val)]\<rparr>)) of
                               Inl e \<Rightarrow> Inl e
                             | Inr s' \<Rightarrow> Inr (release s' LayerIdx SlotIdx POPULATED))
                          else
                            Inr (release (set_Slot s LayerIdx SlotIdx
                                            (x\<lparr>Lock := Held,
                                               Collisions := (Collisions x)
                                                 [CollisionIt := (fst (Collisions x ! CollisionIt), Val)]\<rparr>))
                                   LayerIdx SlotIdx POPULATED))))"

subsection \<open>Delete\<close>

text \<open>
  \<open>SWAP_AND_POP(Dest, Src)\<close> moves the last element of \<open>Src\<close> into \<open>Dest\<close> and pops
  it; in the collision branch \<open>Dest\<close> is an element of \<open>Src\<close> itself.
\<close>

definition Delete :: "('k, 'v) traits \<Rightarrow> ('k, 'v) LayeredHashMap \<Rightarrow> 'k \<Rightarrow> failure + (bool \<times> ('k, 'v) LayeredHashMap)" where
  "Delete T s Key =
     (case key_address T s Key of
        None \<Rightarrow> Inl OutOfBounds
      | Some (LayerIdx, SlotIdx) \<Rightarrow>
          if \<not> in_bounds s LayerIdx SlotIdx then Inl OutOfBounds
          else
            (let x = get_Slot s LayerIdx SlotIdx
             in case write_lock (Lock x) of
                  None \<Rightarrow> Inl Spin
                | Some (Held, NewSlotStatus) \<Rightarrow>
                    (let (deletionOccured, x', Status) =
                       (if NewSlotStatus = EMPTY then (False, x\<lparr>Lock := Held\<rparr>, NewSlotStatus)
                        else if Pred T (fst (Main x)) Key then
                          (if Collisions x \<noteq> []
                           then (True, x\<lparr>Lock := Held, Main := last (Collisions x),
                                         Collisions := butlast (Collisions x)\<rparr>, NewSlotStatus)
                           else (True, x\<lparr>Lock := Held\<rparr>, EMPTY))
                        else
                          (let CollisionIt = find_if (\<lambda>KeyVal. Pred T (fst KeyVal) Key) (Collisions x)
                           in if CollisionIt \<noteq> length (Collisions x)
                              then (True, x\<lparr>Lock := Held,
                                            Collisions := butlast ((Collisions x)
                                              [CollisionIt := last (Collisions x)])\<rparr>, NewSlotStatus)
                              else (False, x\<lparr>Lock := Held\<rparr>, NewSlotStatus)));
                         s1 = set_Slot s LayerIdx SlotIdx x'
                     in if deletionOccured
                        then (case Decrement T s1 of
                                Inl e \<Rightarrow> Inl e
                              | Inr s2 \<Rightarrow> Inr (True, release s2 LayerIdx SlotIdx Status))
                        else Inr (False, release s1 LayerIdx SlotIdx Status))))"

subsection \<open>Read\<close>

text \<open>
  \<open>Read\<close> returns the value, or \<open>out_of_range\<close> for the exception. In both cases the
  destructor of \<open>ReadWrapper\<close> runs \<open>read_unlock\<close>; \<open>Read_map\<close> is the map after the
  call.
\<close>

definition Read :: "('k, 'v) traits \<Rightarrow> ('k, 'v) LayeredHashMap \<Rightarrow> 'k \<Rightarrow> failure + 'v" where
  "Read T s Key =
     (case key_address T s Key of
        None \<Rightarrow> Inl OutOfBounds
      | Some (LayerIdx, SlotIdx) \<Rightarrow>
          if \<not> in_bounds s LayerIdx SlotIdx then Inl OutOfBounds
          else
            (let x = get_Slot s LayerIdx SlotIdx
             in case read_lock (Lock x) of
                  None \<Rightarrow> Inl Spin
                | Some (Held, ReadLock) \<Rightarrow>
                    if ReadLock = EMPTY then Inl out_of_range
                    else if Pred T (fst (Main x)) Key then Inr (snd (Main x))
                    else
                      (let CollisionIt = find_if (\<lambda>KeyVal. Pred T (fst KeyVal) Key) (Collisions x)
                       in if CollisionIt = length (Collisions x) then Inl out_of_range
                          else Inr (snd (Collisions x ! CollisionIt)))))"

definition Read_map :: "('k, 'v) traits \<Rightarrow> ('k, 'v) LayeredHashMap \<Rightarrow> 'k \<Rightarrow> ('k, 'v) LayeredHashMap" where
  "Read_map T s Key =
     (case key_address T s Key of
        None \<Rightarrow> s
      | Some (LayerIdx, SlotIdx) \<Rightarrow>
          if \<not> in_bounds s LayerIdx SlotIdx then s
          else
            (let x = get_Slot s LayerIdx SlotIdx
             in case read_lock (Lock x) of
                  None \<Rightarrow> s
                | Some (Held, ReadLock) \<Rightarrow>
                    set_Slot s LayerIdx SlotIdx (x\<lparr>Lock := read_unlock Held\<rparr>)))"

subsection \<open>Construction\<close>

text \<open>
  \<open>MAP_INIT\<close> after \<open>LayerLastIdx(0U)\<close>: the array of \<open>MaxLayerCount\<close> empty layers with
  layer 0 resized to \<open>Primes[0]\<close>. The counter of the executing thread is constructed
  with \<open>Value(0)\<close> and registered, which runs the internal update once. This is the
  construction of the first map that takes its instance index: the constructor of the
  source does not touch \<open>Values[InstanceIdx]\<close>, so a later map that takes the index
  again would start from the counter its predecessor left, which is left out.
\<close>

definition MAP_INIT :: "('k, 'v) traits \<Rightarrow> ('k, 'v) LayeredHashMap" where
  "MAP_INIT T =
     \<lparr>Slots = (replicate (MaxLayerCount (plat T)) [])
                [0 := resize (default_Slot T) [] (case Primes (plat T) 0 of Some FirstPrime \<Rightarrow> FirstPrime | None \<Rightarrow> 0)],
      LayerLastIdx = 0,
      DTOR_ThreadValuesSum = 0,
      Values_self = \<lparr>Value = 0, Threshold = 0\<rparr>,
      ThreadValues_rest = []\<rparr>"

definition LayeredHashMap_ctor :: "('k, 'v) traits \<Rightarrow> failure + ('k, 'v) LayeredHashMap" where
  "LayeredHashMap_ctor T = UpdateManagerInternal T (MAP_INIT T)"

text \<open>A sequence of \<open>Write\<close> calls, stopping at the first that does not return.\<close>

fun Write_all :: "('k, 'v) traits \<Rightarrow> ('k, 'v) LayeredHashMap \<Rightarrow> ('k \<times> 'v) list \<Rightarrow> failure + ('k, 'v) LayeredHashMap" where
  "Write_all T s [] = Inr s"
| "Write_all T s (kv # kvs) =
     (case Write T s (fst kv) (snd kv) of
        Inl e \<Rightarrow> Inl e
      | Inr s' \<Rightarrow> Write_all T s' kvs)"

section \<open>Properties of the tables and of the state\<close>

text \<open>
  The facts about entry \<open>k\<close> of the tables that the address derivation rests on, for
  a prime array \<open>P\<close> with its leading 0, a mask array \<open>NP\<close> and lowest exponent \<open>e\<close>:
  the prime lies below the mask, the mask is a power of two minus one, every prime but
  the first lies above the previous mask, and the next prime exceeds the sum of this
  prime and this mask.
\<close>

definition tables_bracket :: "nat \<Rightarrow> nat list \<Rightarrow> nat list \<Rightarrow> nat \<Rightarrow> bool" where
  "tables_bracket e P NP k =
     (P ! Suc k < NP ! k \<and>
      NP ! k = 2 ^ (e + k + 1) - 1 \<and>
      (0 < k \<longrightarrow> 2 ^ (e + k) \<le> P ! Suc k) \<and>
      (Suc (Suc k) < length P \<longrightarrow> P ! Suc k + NP ! k < P ! Suc (Suc k)))"

text \<open>
  Every layer up to \<open>LayerLastIdx\<close> has been allocated with its length
  \<open>Primes[i] - Primes[i - 1]\<close>, as \<open>MAP_INIT\<close> and \<open>AllocateLayer\<close> leave the map.
\<close>

definition layers_allocated :: "('k, 'v) traits \<Rightarrow> ('k, 'v) LayeredHashMap \<Rightarrow> bool" where
  "layers_allocated T s =
     (length (Slots s) = MaxLayerCount (plat T) \<and>
      LayerLastIdx s < MaxLayerCount (plat T) \<and>
      (\<forall>i \<le> LayerLastIdx s.
         length (Slots s ! i) = Primes_tab (plat T) ! Suc i - Primes_tab (plat T) ! i))"

text \<open>
  The lock-word part of the slot invariant, which is all that the closed forms of the
  operations need: between operations the lock word is exactly \<open>EMPTY\<close> or
  \<open>POPULATED\<close> (no writer, no reader), and a slot with collisions is populated.
\<close>

definition slot_lock_inv :: "('k, 'v) Slot \<Rightarrow> bool" where
  "slot_lock_inv x = ((Lock x = EMPTY \<or> Lock x = POPULATED) \<and>
                 (Collisions x \<noteq> [] \<longrightarrow> Lock x = POPULATED))"

definition map_lock_inv :: "('k, 'v) LayeredHashMap \<Rightarrow> bool" where
  "map_lock_inv s = (\<forall>layer \<in> set (Slots s). \<forall>x \<in> set layer. slot_lock_inv x)"

text \<open>
  The slot invariant. The source keeps no mark of its own of whether \<open>Main\<close> holds a
  pair: a deleted main pair stays in the field. What a slot logically holds is therefore
  kept beside it, as the list \<open>ps\<close> of the pairs that \<open>Write\<close> calls have put in the
  slot and no \<open>Delete\<close> has removed. The invariant relates the two: the lock word is
  \<open>EMPTY\<close> or \<open>POPULATED\<close>, the occupancy bit is set if and only if the slot holds a
  pair, in which case \<open>Main\<close> is the first pair held and \<open>Collisions\<close> are the others,
  and the collision list of a slot that holds nothing is empty.
\<close>

definition slot_inv :: "('k, 'v) Slot \<Rightarrow> ('k \<times> 'v) list \<Rightarrow> bool" where
  "slot_inv x ps = ((Lock x = EMPTY \<or> Lock x = POPULATED) \<and>
                    (Lock x = POPULATED \<longleftrightarrow> ps \<noteq> []) \<and>
                    (ps \<noteq> [] \<longrightarrow> Main x = hd ps \<and> Collisions x = tl ps) \<and>
                    (ps = [] \<longrightarrow> Collisions x = []))"

text \<open>
  The invariant of the map, for the pairs \<open>A LayerIdx SlotIdx\<close> held at each position of
  the table.
\<close>

definition map_inv :: "('k, 'v) LayeredHashMap \<Rightarrow> (nat \<Rightarrow> nat \<Rightarrow> ('k \<times> 'v) list) \<Rightarrow> bool" where
  "map_inv s A =
     (\<forall>LayerIdx SlotIdx. in_bounds s LayerIdx SlotIdx \<longrightarrow>
        slot_inv (get_Slot s LayerIdx SlotIdx) (A LayerIdx SlotIdx))"

text \<open>
  What the specification says a slot holds after \<open>Write(key, value)\<close> and after
  \<open>Delete(key)\<close>, on the list of the pairs held: the first pair with an equal key wins;
  \<open>Write\<close> assigns its value, or appends the new pair when there is none; \<open>Delete\<close>
  moves the last pair into the vacated position and drops the last position.
\<close>

definition spec_Write_pairs :: "('k \<Rightarrow> 'k \<Rightarrow> bool) \<Rightarrow> 'k \<Rightarrow> 'v \<Rightarrow> ('k \<times> 'v) list \<Rightarrow> ('k \<times> 'v) list" where
  "spec_Write_pairs Equal Key Val ps =
     (let i = find_if (\<lambda>KeyVal. Equal (fst KeyVal) Key) ps
      in if i < length ps then ps[i := (fst (ps ! i), Val)] else ps @ [(Key, Val)])"

definition spec_Delete_pairs :: "('k \<Rightarrow> 'k \<Rightarrow> bool) \<Rightarrow> 'k \<Rightarrow> ('k \<times> 'v) list \<Rightarrow> ('k \<times> 'v) list" where
  "spec_Delete_pairs Equal Key ps =
     (let i = find_if (\<lambda>KeyVal. Equal (fst KeyVal) Key) ps
      in if i < length ps then butlast (ps[i := last ps]) else ps)"

text \<open>
  The pairs held at the positions of the table \<open>s\<close>, nothing elsewhere: a layer that a
  growth allocates holds nothing. And the pairs held once position
  \<open>(LayerIdx, SlotIdx)\<close> holds \<open>ps\<close>.
\<close>

definition held_within :: "('k, 'v) LayeredHashMap \<Rightarrow> (nat \<Rightarrow> nat \<Rightarrow> ('k \<times> 'v) list) \<Rightarrow> nat \<Rightarrow> nat \<Rightarrow> ('k \<times> 'v) list" where
  "held_within s A LayerIdx SlotIdx = (if in_bounds s LayerIdx SlotIdx then A LayerIdx SlotIdx else [])"

definition put_pairs :: "(nat \<Rightarrow> nat \<Rightarrow> ('k \<times> 'v) list) \<Rightarrow> nat \<Rightarrow> nat \<Rightarrow> ('k \<times> 'v) list \<Rightarrow> nat \<Rightarrow> nat \<Rightarrow> ('k \<times> 'v) list" where
  "put_pairs A LayerIdx SlotIdx ps l i = (if l = LayerIdx \<and> i = SlotIdx then ps else A l i)"

text \<open>The pairs a slot holds as the lock word says, and the pairs of the whole map.\<close>

definition slot_pairs :: "('k, 'v) Slot \<Rightarrow> ('k \<times> 'v) list" where
  "slot_pairs x = (if Lock x AND VALUE_BITS_MASK = EMPTY then [] else Main x # Collisions x)"

definition stored_pairs :: "('k, 'v) LayeredHashMap \<Rightarrow> ('k \<times> 'v) list" where
  "stored_pairs s = concat (map (\<lambda>layer. concat (map slot_pairs layer)) (Slots s))"

text \<open>
  The map type instantiated as \<open>LayeredHashMap<size_t, size_t>\<close> with its default
  template arguments: \<open>LayeredHash\<close> casts the key to \<open>size_t\<close>, the predicate is
  \<open>std::equal_to\<close>, and a default-constructed pair is \<open>(0, 0)\<close>.
\<close>

definition size_t_traits :: "platform \<Rightarrow> (nat, nat) traits" where
  "size_t_traits p = \<lparr>plat = p, Hash = (\<lambda>Key. Key), Pred = (=), Default_Pair = (0, 0)\<rparr>"

text \<open>\<open>n\<close> calls of \<open>AllocateLayer\<close> in a row.\<close>

fun AllocateLayer_times :: "nat \<Rightarrow> ('k, 'v) traits \<Rightarrow> ('k, 'v) LayeredHashMap \<Rightarrow> failure + ('k, 'v) LayeredHashMap" where
  "AllocateLayer_times 0 T s = Inr s"
| "AllocateLayer_times (Suc n) T s =
     (case AllocateLayer T s of
        Inl e \<Rightarrow> Inl e
      | Inr s' \<Rightarrow> AllocateLayer_times n T s')"

text \<open>The slot invariant at every position but one, which an operation holds locked.\<close>

definition slots_lock_inv_except :: "('k, 'v) LayeredHashMap \<Rightarrow> nat \<Rightarrow> nat \<Rightarrow> bool" where
  "slots_lock_inv_except s li si =
     (\<forall>i < length (Slots s). \<forall>j < length (Slots s ! i).
        (i, j) \<noteq> (li, si) \<longrightarrow> slot_lock_inv (Slots s ! i ! j))"

text \<open>
  The state of a \<open>LayeredHashMap<size_t, size_t>\<close> built by MSVC for x86 in which exactly
  the keys \<open>0, \<dots>, n - 1\<close> have been written, each with itself as value, and no growth
  has happened: key \<open>i\<close> sits alone in slot \<open>i\<close> of layer 0, which has
  \<open>Primes[0] = 757\<close> slots, and the counter of the only thread holds \<open>n\<close>.
\<close>

definition dense_upto :: "nat \<Rightarrow> (nat, nat) LayeredHashMap \<Rightarrow> bool" where
  "dense_upto n s =
     (LayerLastIdx s = 0 \<and> length (Slots s) = 23 \<and> length (Slots s ! 0) = 757 \<and>
      Slots s ! 1 = [] \<and>
      (\<forall>i < 757. Slots s ! 0 ! i =
         (if i < n then \<lparr>Lock = POPULATED, Main = (i, i), Collisions = []\<rparr>
          else default_Slot (size_t_traits MSVC_IX86))) \<and>
      Values_self s = \<lparr>Value = int n, Threshold = 757\<rparr> \<and>
      ThreadValues_rest s = [] \<and> DTOR_ThreadValuesSum s = 0)"

text \<open>
  The same map after key 1000 has been written as the 758th key and the counter has
  crossed its threshold: layer 1 has been allocated with \<open>1783 - 757\<close> default slots,
  and the pair of key 1000 sits in the collision list of slot 243 of layer 0.
\<close>

definition grown_once :: "(nat, nat) LayeredHashMap \<Rightarrow> bool" where
  "grown_once s =
     (LayerLastIdx s = 1 \<and> length (Slots s) = 23 \<and> length (Slots s ! 0) = 757 \<and>
      Slots s ! 1 = replicate 1026 (default_Slot (size_t_traits MSVC_IX86)) \<and>
      Slots s ! 0 ! 243 = \<lparr>Lock = POPULATED, Main = (243, 243), Collisions = [(1000, 7)]\<rparr> \<and>
      Values_self s = \<lparr>Value = 758, Threshold = 1783\<rparr> \<and>
      ThreadValues_rest s = [] \<and> DTOR_ThreadValuesSum s = 0)"

text \<open>The writes of the keys \<open>0, \<dots>, n - 1\<close>, in order, each with itself as value.\<close>

definition seq_writes :: "nat \<Rightarrow> (nat \<times> nat) list" where
  "seq_writes n = map (\<lambda>i. (i, i)) [0..<n]"

section \<open>The integer logarithm is the position of the highest set bit\<close>

lemma and_band_nat:
  fixes X :: nat
  assumes "X < 2 ^ (2 * s)"
  shows "(X AND (2 ^ (2 * s) - 2 ^ s) \<noteq> 0) = (2 ^ s \<le> X)"
proof -
  have "(2::nat) ^ (2 * s) = 2 ^ s * 2 ^ s"
    by (simp add: mult_2 power_add)
  then have m: "(2::nat) ^ (2 * s) - 2 ^ s = push_bit s (mask s)"
    by (simp add: push_bit_eq_mult mask_eq_exp_minus_1 diff_mult_distrib)
  have "X AND push_bit s (mask s) = push_bit s (take_bit s (drop_bit s X))"
    by (rule bit_eqI) (auto simp: bit_simps)
  moreover have "drop_bit s X < 2 ^ s"
    using assms by (simp add: drop_bit_eq_div less_mult_imp_div_less power_add mult_2)
  then have "take_bit s (drop_bit s X) = drop_bit s X"
    by (simp add: take_bit_nat_eq_self_iff)
  ultimately have "X AND (2 ^ (2 * s) - 2 ^ s) = push_bit s (drop_bit s X)"
    using m by simp
  then have "(X AND (2 ^ (2 * s) - 2 ^ s) = 0) = (drop_bit s X = 0)"
    by (simp add: push_bit_eq_mult)
  also have "\<dots> = (X < 2 ^ s)"
    by (simp add: drop_bit_eq_div div_eq_0_iff)
  finally show ?thesis by auto
qed



lemma exp_or_small:
  fixes l :: nat
  assumes "l < 2 ^ i"
  shows "2 ^ i OR l = 2 ^ i + l"
proof -
  have "take_bit i l = l" using assms by (simp add: take_bit_nat_eq_self_iff)
  then have "2 ^ i AND l = 0"
    by (metis and.commute take_bit_eq_mask and.assoc mask_eq_exp_minus_1 bit.conj_zero_right and_exp_eq_0_iff_not_bit bit_take_bit_iff less_irrefl)
  then show ?thesis by (simp add: disjunctive_add_eq_or)
qed

lemma b_S_tab:
  assumes "i \<le> Log2Iterations p"
  shows "b p ! i = 2 ^ (2 * 2 ^ i) - 2 ^ (2 ^ i) \<and> S ! i = 2 ^ i"
proof -
  have "i \<in> {0,1,2,3,4,5}" "sizeof_size_t p \<le> 4 \<Longrightarrow> i \<in> {0,1,2,3,4}"
    using assms by (auto simp: Log2Iterations_def split: if_splits)
  then show ?thesis
    by (auto simp: b_def b32_def b64_def S_def)
qed

lemma IntLog2_loop_correct:
  assumes "i \<le> Suc (Log2Iterations p)" "0 < X" "X < 2 ^ (2 ^ i)"
  shows "\<exists>l. IntLog2_loop p i X R = R OR l \<and> l < 2 ^ i \<and> 2 ^ l \<le> X \<and> X < 2 ^ Suc l"
  using assms
proof (induction i arbitrary: X R)
  case 0
  then have "X = 1" by simp
  then show ?case by (intro exI[of _ 0]) simp
next
  case (Suc i)
  have tab: "b p ! i = 2 ^ (2 * 2 ^ i) - 2 ^ (2 ^ i)" "S ! i = 2 ^ i"
    using b_S_tab[of i p] Suc.prems(1) by auto
  have X2: "X < 2 ^ (2 * 2 ^ i)" using Suc.prems(3) by (simp add: mult.commute)
  show ?case
  proof (cases "2 ^ (2 ^ i) \<le> X")
    case True
    let ?X' = "drop_bit (2 ^ i) X"
    have pos: "0 < ?X'" using True by (simp add: drop_bit_eq_div div_greater_zero_iff)
    have lt: "?X' < 2 ^ (2 ^ i)"
      using X2 by (simp add: drop_bit_eq_div less_mult_imp_div_less power_add mult_2)
    from Suc.IH[OF _ pos lt, of "R OR 2 ^ i"] Suc.prems(1)
    obtain l where l: "IntLog2_loop p i ?X' (R OR 2 ^ i) = (R OR 2 ^ i) OR l"
      "l < 2 ^ i" "2 ^ l \<le> ?X'" "?X' < 2 ^ Suc l" by auto
    have step: "IntLog2_loop p (Suc i) X R = IntLog2_loop p i ?X' (R OR 2 ^ i)"
      using True and_band_nat[OF X2] by (simp add: tab)
    have e: "2 ^ i OR l = 2 ^ i + l" using l(2) by (rule exp_or_small)
    have lo: "2 ^ (2 ^ i + l) \<le> X"
    proof -
      have "2 ^ (2 ^ i) * 2 ^ l \<le> 2 ^ (2 ^ i) * (X div 2 ^ (2 ^ i))"
        using l(3) by (simp add: drop_bit_eq_div)
      also have "\<dots> \<le> X" by simp
      finally show ?thesis by (simp add: power_add)
    qed
    have hi: "X < 2 ^ Suc (2 ^ i + l)"
    proof -
      have "X div 2 ^ (2 ^ i) < 2 ^ Suc l" using l(4) by (simp add: drop_bit_eq_div)
      then have "X < 2 ^ Suc l * 2 ^ (2 ^ i)"
        by (simp add: div_less_iff_less_mult)
      then show ?thesis by (simp add: power_add mult.commute)
    qed
    show ?thesis
      by (rule exI[of _ "2 ^ i + l"]) (use step l e lo hi in \<open>simp add: or.assoc\<close>)
  next
    case False
    then have lt: "X < 2 ^ (2 ^ i)" by simp
    from Suc.IH[OF _ Suc.prems(2) lt, of R] Suc.prems(1)
    obtain l where l: "IntLog2_loop p i X R = R OR l"
      "l < 2 ^ i" "2 ^ l \<le> X" "X < 2 ^ Suc l" by auto
    have step: "IntLog2_loop p (Suc i) X R = IntLog2_loop p i X R"
      using False and_band_nat[OF X2] by (simp add: tab)
    show ?thesis
      by (rule exI[of _ l]) (use step l in simp)
  qed
qed

lemma IntLog2_correct:
  assumes "0 < X" "X < 2 ^ size_t_bits p"
  shows "2 ^ IntLog2 p X \<le> X \<and> X < 2 ^ Suc (IntLog2 p X)"
proof -
  have "size_t_bits p = 2 ^ Suc (Log2Iterations p)"
    by (cases p) (simp_all add: size_t_bits_def Log2Iterations_def)
  with assms have "X < 2 ^ (2 ^ Suc (Log2Iterations p))" by simp
  from IntLog2_loop_correct[OF le_refl assms(1) this, of 0]
  show ?thesis by (auto simp: IntLog2_def)
qed

section \<open>Facts about the tables\<close>

lemma tables_bracket_32b: "list_all (tables_bracket 9 Primes_32b NextPower_32b) [0..<23]"
  by (simp add: tables_bracket_def Primes_32b_def NextPower_32b_def upt_conv_Cons)

lemma tables_bracket_64b: "list_all (tables_bracket 11 Primes_64b NextPower_64b) [0..<42]"
  by (simp add: tables_bracket_def Primes_64b_def NextPower_64b_def upt_conv_Cons)

lemma tables_bracketI:
  assumes "k < MaxLayerCount p"
  shows "tables_bracket (LowestExponent p) (Primes_tab p) (NextPower_tab p) k"
proof (cases "sizeof_size_t p \<le> 4")
  case True
  with assms tables_bracket_32b show ?thesis
    by (simp add: list_all_iff MaxLayerCount_def LowestExponent_def Primes_tab_def NextPower_tab_def)
next
  case False
  with assms tables_bracket_64b show ?thesis
    by (simp add: list_all_iff MaxLayerCount_def LowestExponent_def Primes_tab_def NextPower_tab_def)
qed

lemma NextPower_tab_eq:
  "k < MaxLayerCount p \<Longrightarrow> NextPower_tab p ! k = 2 ^ (LowestExponent p + k + 1) - 1"
  using tables_bracketI[of k p] by (simp add: tables_bracket_def)

lemma Primes_tab_below_mask:
  "k < MaxLayerCount p \<Longrightarrow> Primes_tab p ! Suc k < NextPower_tab p ! k"
  using tables_bracketI[of k p] by (simp add: tables_bracket_def)

lemma Primes_tab_upper:
  "k < MaxLayerCount p \<Longrightarrow> Primes_tab p ! Suc k < 2 ^ (LowestExponent p + k + 1)"
  using Primes_tab_below_mask[of k p] NextPower_tab_eq[of k p] by simp

lemma Primes_tab_lower:
  "k < MaxLayerCount p \<Longrightarrow> 0 < k \<Longrightarrow> 2 ^ (LowestExponent p + k) \<le> Primes_tab p ! Suc k"
  using tables_bracketI[of k p] by (simp add: tables_bracket_def)

lemma tab_lengths:
  "length (Primes_tab p) = Suc (MaxLayerCount p)"
  "length (NextPower_tab p) = MaxLayerCount p"
  "Primes_tab p ! 0 = 0"
  by (simp_all add: Primes_tab_def NextPower_tab_def MaxLayerCount_def Primes_32b_def
      Primes_64b_def NextPower_32b_def NextPower_64b_def)

lemma Primes_tab_gap:
  assumes "Suc k < MaxLayerCount p"
  shows "Primes_tab p ! Suc k + NextPower_tab p ! k < Primes_tab p ! Suc (Suc k)"
proof -
  have "k < MaxLayerCount p" using assms by simp
  from tables_bracketI[OF this]
  have "Suc (Suc k) < length (Primes_tab p) \<longrightarrow>
          Primes_tab p ! Suc k + NextPower_tab p ! k < Primes_tab p ! Suc (Suc k)"
    unfolding tables_bracket_def by blast
  then show ?thesis using assms by (simp add: tab_lengths)
qed

lemma exponent_bound: "LowestExponent p + MaxLayerCount p \<le> size_t_bits p"
  by (cases p) (simp_all add: LowestExponent_def MaxLayerCount_def size_t_bits_def)

lemma MaxLayerCount_small: "MaxLayerCount p < 2 ^ size_t_bits p - 1"
  by (cases p) (simp_all add: MaxLayerCount_def size_t_bits_def)

lemma Primes_tab_mono:
  assumes "i < j" "j < MaxLayerCount p"
  shows "Primes_tab p ! Suc i < Primes_tab p ! Suc j"
proof -
  have "Primes_tab p ! Suc i < 2 ^ (LowestExponent p + i + 1)"
    using assms by (intro Primes_tab_upper) simp
  also have "(2::nat) ^ (LowestExponent p + i + 1) \<le> 2 ^ (LowestExponent p + j)"
    using assms by (intro power_increasing) simp_all
  also have "\<dots> \<le> Primes_tab p ! Suc j"
    using assms by (intro Primes_tab_lower) simp_all
  finally show ?thesis .
qed

lemma Primes_tab_lt_word:
  assumes "k < MaxLayerCount p"
  shows "Primes_tab p ! Suc k < 2 ^ size_t_bits p"
proof -
  have "Primes_tab p ! Suc k < 2 ^ (LowestExponent p + k + 1)"
    using assms by (rule Primes_tab_upper)
  also have "(2::nat) ^ (LowestExponent p + k + 1) \<le> 2 ^ size_t_bits p"
    using assms exponent_bound[of p] by (intro power_increasing) simp_all
  finally show ?thesis .
qed

lemma Primes_in_range:
  assumes "k < MaxLayerCount p"
  shows "Primes p k = Some (Primes_tab p ! Suc k)"
proof -
  have "k + 1 < 2 ^ size_t_bits p" using assms MaxLayerCount_small[of p] by simp
  then show ?thesis using assms by (simp add: Primes_def size_t_add_def tab_lengths)
qed

lemma Primes_before_first: "Primes p (size_t_sub p 0 1) = Some 0"
proof -
  have "(1::nat) < 2 ^ size_t_bits p" by (cases p) (simp_all add: size_t_bits_def)
  then have "size_t_sub p 0 1 = 2 ^ size_t_bits p - 1" by (simp add: size_t_sub_def)
  then have "size_t_add p (size_t_sub p 0 1) 1 = 0" by (simp add: size_t_add_def)
  then show ?thesis by (simp add: Primes_def tab_lengths)
qed

lemma size_t_sub_exact:
  assumes "y \<le> x" "x < 2 ^ size_t_bits p"
  shows "size_t_sub p x y = x - y"
proof -
  have 1: "y mod 2 ^ size_t_bits p = y" using assms by simp
  have 2: "(x + 2 ^ size_t_bits p - y) = (x - y) + 2 ^ size_t_bits p"
    using assms by simp
  have 3: "x - y < 2 ^ size_t_bits p" using assms by simp
  show ?thesis unfolding size_t_sub_def 1 2 using 3 by simp
qed

lemma size_t_add_exact: "x + y < 2 ^ size_t_bits p \<Longrightarrow> size_t_add p x y = x + y"
  by (simp add: size_t_add_def)

section \<open>Layer and offset of a raw hash\<close>

lemma LowestNextPower_eq: "LowestNextPower p = 2 ^ LowestExponent p"
  by (simp add: LowestNextPower_def LowestExponent_def)

lemma MaxLayerCount_pos: "0 < MaxLayerCount p"
  by (simp add: MaxLayerCount_def)

lemma bits_lt_word: "size_t_bits p < 2 ^ size_t_bits p"
  by (rule less_exp)

lemma pow2_lt_cancel: "(2::nat) ^ a \<le> x \<Longrightarrow> x < 2 ^ c \<Longrightarrow> a < c"
  by (metis leD leI le_less_trans power_increasing one_le_numeral)

lemma GetLayer_spec:
  assumes Lmax: "L < MaxLayerCount p" and lt: "rawHash < Primes_tab p ! Suc L"
  shows "\<exists>layer. GetLayer p rawHash = Some layer \<and> layer \<le> L \<and>
           (if layer = 0 then 0 else Primes_tab p ! layer) \<le> rawHash \<and>
           rawHash < Primes_tab p ! Suc layer"
proof -
  let ?e = "LowestExponent p"
  let ?w = "size_t_bits p"
  define y where "y = rawHash + (if rawHash < 2 ^ ?e then 2 ^ ?e else 0)"
  have raw_hi: "rawHash < 2 ^ (?e + L + 1)"
    using lt Primes_tab_upper[OF Lmax] by simp
  have ew: "?e + L + 1 \<le> ?w" using Lmax exponent_bound[of p] by simp
  have raw_w: "rawHash < 2 ^ ?w"
    using raw_hi power_increasing[OF ew, of "2::nat"] by simp
  have y_w: "y < 2 ^ ?w"
  proof (cases "rawHash < 2 ^ ?e")
    case True
    then have "y < 2 ^ (?e + 1)" by (simp add: y_def)
    moreover have "(2::nat) ^ (?e + 1) \<le> 2 ^ ?w"
      using ew by (intro power_increasing) simp_all
    ultimately show ?thesis by simp
  next
    case False
    then show ?thesis using raw_w by (simp add: y_def)
  qed
  have y_lo: "2 ^ ?e \<le> y" by (simp add: y_def)
  then have y_pos: "0 < y" by (metis gr0I not_less_eq_eq zero_less_power zero_less_numeral le_zero_eq less_numeral_extra(3))
  have arg: "size_t_add p rawHash ((if rawHash < LowestNextPower p then 1 else 0) * LowestNextPower p) = y"
    using y_w by (auto simp: size_t_add_def y_def LowestNextPower_eq)
  define l where "l = IntLog2 p y"
  have l: "2 ^ l \<le> y" "y < 2 ^ Suc l"
    using IntLog2_correct[OF y_pos y_w] by (simp_all add: l_def)
  have e_le_l: "?e \<le> l"
    using pow2_lt_cancel[OF y_lo l(2)] by simp
  define k where "k = l - ?e"
  have lk: "l = ?e + k" using e_le_l by (simp add: k_def)
  have l_w: "l < 2 ^ ?w"
    using less_trans[OF pow2_lt_cancel[OF l(1) y_w] bits_lt_word[of p]] .
  have sub: "size_t_sub p l ?e = k"
    using size_t_sub_exact[OF e_le_l l_w] by (simp add: k_def)
  have k_facts: "rawHash < 2 ^ (?e + k + 1) \<and> (k = 0 \<or> 2 ^ (?e + k) \<le> rawHash)"
  proof (cases "rawHash < 2 ^ ?e")
    case True
    then have "y < 2 ^ (?e + 1)" by (simp add: y_def)
    from pow2_lt_cancel[OF l(1) this] e_le_l have "k = 0" by (simp add: k_def)
    moreover have "(2::nat) ^ ?e \<le> 2 ^ (?e + 1)" by simp
    ultimately show ?thesis using True by simp
  next
    case False
    then have "y = rawHash" by (simp add: y_def)
    then show ?thesis using l lk by simp
  qed
  have k_le: "k \<le> L"
  proof (cases "k = 0")
    case False
    with k_facts have "2 ^ (?e + k) \<le> rawHash" by simp
    from pow2_lt_cancel[OF this raw_hi] show ?thesis by simp
  qed simp
  then have k_max: "k < MaxLayerCount p" using Lmax by simp
  have Pk: "Primes p k = Some (Primes_tab p ! Suc k)" by (rule Primes_in_range[OF k_max])
  have k_w: "k + 1 < 2 ^ ?w" using k_max MaxLayerCount_small[of p] by simp
  have below: "(if k = 0 then 0 else Primes_tab p ! k) \<le> rawHash"
  proof (cases "k = 0")
    case False
    then obtain k' where k': "k = Suc k'" by (cases k) auto
    have "Primes_tab p ! Suc k' < 2 ^ (?e + k' + 1)"
      using k_max k' by (intro Primes_tab_upper) simp
    also have "\<dots> \<le> rawHash" using k_facts k' by simp
    finally show ?thesis using k' by simp
  qed simp
  have GL: "GetLayer p rawHash =
      Some (size_t_add p k (if rawHash \<ge> Primes_tab p ! Suc k then 1 else 0))"
    unfolding GetLayer_def arg l_def[symmetric] sub Let_def Pk by simp
  show ?thesis
  proof (cases "rawHash < Primes_tab p ! Suc k")
    case True
    then have "GetLayer p rawHash = Some k"
      using k_w by (simp add: GL size_t_add_def)
    then show ?thesis using k_le below True by simp
  next
    case False
    then have ge: "Primes_tab p ! Suc k \<le> rawHash" by simp
    have "k \<noteq> L" using ge lt by auto
    then have k_lt: "k < L" using k_le by simp
    then have k1: "Suc k < MaxLayerCount p" using Lmax by simp
    have "GetLayer p rawHash = Some (Suc k)"
      using False k_w by (simp add: GL size_t_add_def)
    moreover have "rawHash < Primes_tab p ! Suc (Suc k)"
    proof -
      have "rawHash < 2 ^ (?e + Suc k)" using k_facts by simp
      also have "\<dots> \<le> Primes_tab p ! Suc (Suc k)"
        using k1 by (intro Primes_tab_lower) simp_all
      finally show ?thesis .
    qed
    ultimately show ?thesis using k_lt ge by simp
  qed
qed

lemma GetSlot_spec:
  assumes "layer < MaxLayerCount p"
    and "(if layer = 0 then 0 else Primes_tab p ! layer) \<le> rawHash"
    and "rawHash < Primes_tab p ! Suc layer"
  shows "Primes p (size_t_sub p layer 1) = Some (if layer = 0 then 0 else Primes_tab p ! layer) \<and>
         GetSlot p rawHash layer = Some (rawHash - (if layer = 0 then 0 else Primes_tab p ! layer))"
proof -
  have raw_w: "rawHash < 2 ^ size_t_bits p"
    using assms(3) Primes_tab_lt_word[OF assms(1)] by simp
  show ?thesis
  proof (cases "layer = 0")
    case True
    then show ?thesis
      using raw_w size_t_sub_exact[of 0 rawHash p] Primes_before_first[of p]
      by (simp add: GetSlot_def)
  next
    case False
    then obtain j where j: "layer = Suc j" by (cases layer) auto
    have lw: "layer < 2 ^ size_t_bits p" using assms(1) MaxLayerCount_small[of p] by simp
    have s: "size_t_sub p (Suc j) (Suc 0) = j"
      using size_t_sub_exact[of 1 layer p] lw j by simp
    have Pj: "Primes p j = Some (Primes_tab p ! Suc j)"
      using assms(1) j by (intro Primes_in_range) simp
    show ?thesis
      using assms(2) raw_w j size_t_sub_exact[of "Primes_tab p ! Suc j" rawHash p]
      by (simp add: GetSlot_def s Pj)
  qed
qed

lemma Primes_tab_pos: 
  assumes "k < MaxLayerCount p" shows "0 < Primes_tab p ! Suc k"
proof (cases "k = 0")
  case True
  then show ?thesis
    by (simp add: Primes_tab_def Primes_32b_def Primes_64b_def)
next
  case False
  then have "2 ^ (LowestExponent p + k) \<le> Primes_tab p ! Suc k"
    using assms by (intro Primes_tab_lower) simp_all
  moreover have "(0::nat) < 2 ^ (LowestExponent p + k)" by simp
  ultimately show ?thesis by linarith
qed

lemma NextPower_in_range:
  "k < MaxLayerCount p \<Longrightarrow> NextPower p k = Some (NextPower_tab p ! k)"
  by (simp add: NextPower_def tab_lengths)

lemma RawHash_of_spec:
  assumes "L < MaxLayerCount p"
  shows "RawHash_of p L h = Some ((h AND NextPower_tab p ! L) mod Primes_tab p ! Suc L) \<and>
         (h AND NextPower_tab p ! L) mod Primes_tab p ! Suc L < Primes_tab p ! Suc L"
  using assms Primes_tab_pos[OF assms]
  by (simp add: RawHash_of_def NextPower_in_range Primes_in_range)

section \<open>Claims about the address derivation and the tables\<close>

text \<open>
  Claim C3. For every \<open>last\<close> below \<open>MaxLayerCount\<close> and every raw hash below
  \<open>Primes[last]\<close>, \<open>GetLayer\<close> and \<open>GetSlot\<close> return a layer and an offset with
  \<open>Primes[layer - 1] \<le> rawHash < Primes[layer]\<close> and
  \<open>offset < Primes[layer] - Primes[layer - 1]\<close>, where \<open>Primes[-1] = 0\<close> is the entry
  that the wrapped index \<open>layer - 1\<close> reads at \<open>layer = 0\<close>. Both functions return, on
  both table widths.
\<close>
theorem GetLayer_GetSlot_within_layer:
  assumes "L < MaxLayerCount p" and "Primes p L = Some P_last" and "rawHash < P_last"
  shows "\<exists>layer offset lo hi.
           GetLayer p rawHash = Some layer \<and> GetSlot p rawHash layer = Some offset \<and>
           Primes p (size_t_sub p layer 1) = Some lo \<and> Primes p layer = Some hi \<and>
           lo \<le> rawHash \<and> rawHash < hi \<and> offset < hi - lo"
proof -
  have lt: "rawHash < Primes_tab p ! Suc L"
    using assms by (simp add: Primes_in_range)
  from GetLayer_spec[OF assms(1) lt] obtain layer where
    layer: "GetLayer p rawHash = Some layer" "layer \<le> L"
      "(if layer = 0 then 0 else Primes_tab p ! layer) \<le> rawHash"
      "rawHash < Primes_tab p ! Suc layer" by blast
  have lmax: "layer < MaxLayerCount p" using layer(2) assms(1) by simp
  note slot = GetSlot_spec[OF lmax layer(3,4)]
  show ?thesis
    using layer slot Primes_in_range[OF lmax]
    by (intro exI[of _ layer] exI[of _ "rawHash - (if layer = 0 then 0 else Primes_tab p ! layer)"]
        exI[of _ "if layer = 0 then 0 else Primes_tab p ! layer"] exI[of _ "Primes_tab p ! Suc layer"])
       auto
qed

lemma Primes_Other64_1: "Primes Other64 1 = Some 6733"
  by (simp add: Primes_def size_t_add_def size_t_bits_def Primes_tab_def Primes_64b_def)

theorem GetLayer_GetSlot_within_layer_witness:
  "1 < MaxLayerCount Other64 \<and> Primes Other64 1 = Some 6733 \<and> (3000::nat) < 6733 \<and>
   (\<exists>layer offset lo hi.
           GetLayer Other64 3000 = Some layer \<and> GetSlot Other64 3000 layer = Some offset \<and>
           Primes Other64 (size_t_sub Other64 layer 1) = Some lo \<and> Primes Other64 layer = Some hi \<and>
           lo \<le> 3000 \<and> 3000 < hi \<and> offset < hi - lo)"
proof -
  have h1: "1 < MaxLayerCount Other64" by (simp add: MaxLayerCount_def)
  have h3: "(3000::nat) < 6733" by simp
  show ?thesis
    using h1 h3 Primes_Other64_1 GetLayer_GetSlot_within_layer[OF h1 Primes_Other64_1 h3]
    by simp
qed

text \<open>
  Claim C9, amended. For every index \<open>i\<close> with \<open>i + 1\<close> below \<open>MaxLayerCount\<close>, in
  the tables of either width: \<open>P[i] < P[i+1]\<close>; \<open>NP[i] < P[i+1] < NP[i+1]\<close>;
  \<open>NP[i+1] = 2 * NP[i] + 1\<close>, each entry of \<open>NP\<close> being a power of two minus one
  (\<open>NP[i] = 2 ^ (LowestExponent + i + 1) - 1\<close>); \<open>P[i+1] > P[i] + NP[i]\<close>; and
  \<open>P[i] - NP[i] < P[0]\<close> over the integers. The claim as stated has
  \<open>NP[i+1] = 2 * NP[i]\<close>, which no entry satisfies: the entries are bit masks, not
  powers of two.
\<close>
theorem tables_invariants:
  assumes "Suc i < MaxLayerCount p"
  shows "\<exists>P_i P_i1 NP_i NP_i1 P_0.
           Primes p i = Some P_i \<and> Primes p (Suc i) = Some P_i1 \<and> Primes p 0 = Some P_0 \<and>
           NextPower p i = Some NP_i \<and> NextPower p (Suc i) = Some NP_i1 \<and>
           P_i < P_i1 \<and> NP_i < P_i1 \<and> P_i1 < NP_i1 \<and>
           NP_i1 = 2 * NP_i + 1 \<and> NP_i = 2 ^ (LowestExponent p + i + 1) - 1 \<and>
           P_i1 > P_i + NP_i \<and> int P_i - int NP_i < int P_0"
proof -
  have i: "i < MaxLayerCount p" and z: "0 < MaxLayerCount p" using assms by simp_all
  have np: "NextPower_tab p ! i = 2 ^ (LowestExponent p + i + 1) - 1"
    and np1: "NextPower_tab p ! Suc i = 2 ^ (LowestExponent p + Suc i + 1) - 1"
    using NextPower_tab_eq[OF i] NextPower_tab_eq[OF assms] by simp_all
  have dbl: "NextPower_tab p ! Suc i = 2 * NextPower_tab p ! i + 1"
  proof -
    define a :: nat where "a = 2 ^ (LowestExponent p + i + 1)"
    have a: "1 \<le> a" by (simp add: a_def)
    have "(2::nat) ^ (LowestExponent p + Suc i + 1) = 2 * a" by (simp add: a_def)
    then show ?thesis unfolding np np1 a_def[symmetric] using a by linarith
  qed
  have gap: "Primes_tab p ! Suc i + NextPower_tab p ! i < Primes_tab p ! Suc (Suc i)"
    by (rule Primes_tab_gap[OF assms])
  have below: "Primes_tab p ! Suc i < NextPower_tab p ! i"
    by (rule Primes_tab_below_mask[OF i])
  have below1: "Primes_tab p ! Suc (Suc i) < NextPower_tab p ! Suc i"
    by (rule Primes_tab_below_mask[OF assms])
  have pos: "0 < Primes_tab p ! Suc 0" by (rule Primes_tab_pos[OF z])
  have c1: "Primes_tab p ! Suc i < Primes_tab p ! Suc (Suc i)"
    and c2: "NextPower_tab p ! i < Primes_tab p ! Suc (Suc i)"
    and c3: "int (Primes_tab p ! Suc i) - int (NextPower_tab p ! i) < int (Primes_tab p ! Suc 0)"
    using gap below pos by linarith+
  show ?thesis
    using Primes_in_range[OF i] Primes_in_range[OF assms] Primes_in_range[OF z]
      NextPower_in_range[OF i] NextPower_in_range[OF assms] dbl np gap below1 c1 c2 c3
    by blast
qed

theorem tables_invariants_witness:
  "Suc 0 < MaxLayerCount Other32 \<and>
   (\<exists>P_i P_i1 NP_i NP_i1 P_0.
           Primes Other32 0 = Some P_i \<and> Primes Other32 (Suc 0) = Some P_i1 \<and> Primes Other32 0 = Some P_0 \<and>
           NextPower Other32 0 = Some NP_i \<and> NextPower Other32 (Suc 0) = Some NP_i1 \<and>
           P_i < P_i1 \<and> NP_i < P_i1 \<and> P_i1 < NP_i1 \<and>
           NP_i1 = 2 * NP_i + 1 \<and> NP_i = 2 ^ (LowestExponent Other32 + 0 + 1) - 1 \<and>
           P_i1 > P_i + NP_i \<and> int P_i - int NP_i < int P_0)"
proof -
  have h: "Suc 0 < MaxLayerCount Other32" by (simp add: MaxLayerCount_def)
  show ?thesis using h tables_invariants[OF h] by simp
qed

text \<open>The masks at indices 0 and 1 of the 64-bit table: 8191 is not twice 4095.\<close>

theorem NextPower_doubling_counterexample:
  "NextPower Other64 0 = Some 4095 \<and> NextPower Other64 1 = Some 8191 \<and> (8191::nat) \<noteq> 2 * 4095"
  by (simp add: NextPower_def NextPower_tab_def NextPower_64b_def)

section \<open>Evaluating addresses at concrete keys\<close>

lemma IntLog2_loop_numeral:
  "IntLog2_loop p (numeral k) X R =
     (if X AND (b p ! pred_numeral k) \<noteq> 0
      then IntLog2_loop p (pred_numeral k) (drop_bit (S ! pred_numeral k) X) (R OR (S ! pred_numeral k))
      else IntLog2_loop p (pred_numeral k) X R)"
  by (simp add: numeral_eq_Suc)

lemma IntLog2_loop_1:
  "IntLog2_loop p 1 X R =
     (if X AND (b p ! 0) \<noteq> 0 then IntLog2_loop p 0 (drop_bit (S ! 0) X) (R OR (S ! 0))
      else IntLog2_loop p 0 X R)"
  unfolding One_nat_def by simp

lemmas addr_eval = key_address_def slot_address_def RawHash_of_def GetLayer_def GetSlot_def
  IntLog2_def IntLog2_loop_numeral IntLog2_loop_1 Log2Iterations_def b_def b32_def b64_def S_def
  Primes_def NextPower_def Primes_tab_def NextPower_tab_def Primes_32b_def Primes_64b_def
  NextPower_32b_def NextPower_64b_def size_t_add_def size_t_sub_def size_t_bits_def
  LowestExponent_def LowestNextPower_def MaxLayerCount_def size_t_traits_def

text \<open>
  A key with hash 3000 on a 64-bit platform: its slot is (0, 367) in the freshly
  initialised map and (1, 367) after one \<open>AllocateLayer\<close>.
\<close>

theorem address_changes_on_growth_counterexample:
  "key_address (size_t_traits Other64) (MAP_INIT (size_t_traits Other64)) 3000 = Some (0, 367) \<and>
   (case AllocateLayer (size_t_traits Other64) (MAP_INIT (size_t_traits Other64)) of
      Inl e \<Rightarrow> False
    | Inr s' \<Rightarrow> key_address (size_t_traits Other64) s' 3000 = Some (1, 367))"
  by (simp add: addr_eval MAP_INIT_def AllocateLayer_def)

lemma Primes_tab_mono_le:
  assumes "i \<le> j" "j < MaxLayerCount p"
  shows "Primes_tab p ! Suc i \<le> Primes_tab p ! Suc j"
  using Primes_tab_mono[of i j p] assms by (cases "i = j") auto

lemma and_mask_small:
  fixes h :: nat
  assumes "h < 2 ^ m"
  shows "h AND (2 ^ m - 1) = h"
proof -
  have "h AND mask m = take_bit m h" by (simp add: take_bit_eq_mask)
  also have "\<dots> = h" using assms by (simp add: take_bit_nat_eq_self_iff)
  finally show ?thesis by (simp add: mask_eq_exp_minus_1)
qed

lemma RawHash_of_small:
  assumes "L \<le> L'" "L' < MaxLayerCount p" "h < Primes_tab p ! Suc L"
  shows "RawHash_of p L' h = Some h"
proof -
  have L: "L < MaxLayerCount p" using assms by simp
  have "h < Primes_tab p ! Suc L'"
    using assms(3) Primes_tab_mono_le[OF assms(1,2)] by simp
  moreover have "h < 2 ^ (LowestExponent p + L' + 1)"
    using calculation Primes_tab_upper[OF assms(2)] by simp
  then have "h AND NextPower_tab p ! L' = h"
    by (simp only: NextPower_tab_eq[OF assms(2)] and_mask_small)
  ultimately show ?thesis
    using RawHash_of_spec[OF assms(2), of h] by simp
qed

lemma slot_address_small:
  assumes "L \<le> L'" "L' < MaxLayerCount p" "h < Primes_tab p ! Suc L"
  shows "slot_address p L' h = slot_address p L h"
  using RawHash_of_small[OF assms] RawHash_of_small[OF le_refl _ assms(3)] assms
  by (simp add: slot_address_def)

lemma AllocateLayer_Inr:
  assumes "AllocateLayer T s = Inr s'" "LayerLastIdx s < MaxLayerCount (plat T)"
  shows "LayerLastIdx s' = Suc (LayerLastIdx s) \<and> Suc (LayerLastIdx s) < MaxLayerCount (plat T) \<and>
         Suc (LayerLastIdx s) < length (Slots s) \<and>
         length (Slots s') = length (Slots s) \<and>
         (\<forall>i. i \<noteq> Suc (LayerLastIdx s) \<longrightarrow> Slots s' ! i = Slots s ! i) \<and>
         Slots s' ! Suc (LayerLastIdx s) =
           resize (default_Slot T) (Slots s ! Suc (LayerLastIdx s))
             (Primes_tab (plat T) ! Suc (Suc (LayerLastIdx s)) - Primes_tab (plat T) ! Suc (LayerLastIdx s)) \<and>
         DTOR_ThreadValuesSum s' = DTOR_ThreadValuesSum s \<and> Values_self s' = Values_self s \<and>
         ThreadValues_rest s' = ThreadValues_rest s"
proof -
  let ?p = "plat T" and ?L = "LayerLastIdx s"
  have n: "size_t_add ?p ?L (Suc 0) = Suc ?L"
    using assms(2) MaxLayerCount_small[of ?p] by (simp add: size_t_add_def)
  have top: "Suc ?L < MaxLayerCount ?p"
  proof (rule ccontr)
    assume "\<not> Suc ?L < MaxLayerCount ?p"
    then have "Suc ?L = MaxLayerCount ?p" using assms(2) by simp
    then have "size_t_add ?p (Suc ?L) 1 = Suc (MaxLayerCount ?p)"
      using MaxLayerCount_small[of ?p] by (simp add: size_t_add_def)
    then have "Primes ?p (Suc ?L) = None" by (simp add: Primes_def tab_lengths)
    then show False using assms(1) by (simp add: AllocateLayer_def n Let_def split: option.splits)
  qed
  have lt: "Primes_tab ?p ! Suc ?L < Primes_tab ?p ! Suc (Suc ?L)"
    using Primes_tab_mono[of ?L "Suc ?L" ?p] top by simp
  have d: "size_t_sub ?p (Primes_tab ?p ! Suc (Suc ?L)) (Primes_tab ?p ! Suc ?L)
             = Primes_tab ?p ! Suc (Suc ?L) - Primes_tab ?p ! Suc ?L"
    using lt Primes_tab_lt_word[OF top] by (intro size_t_sub_exact) simp_all
  show ?thesis
    using assms(1) top
    by (auto simp: AllocateLayer_def n Primes_in_range[OF assms(2)] Primes_in_range[OF top] d
        Let_def split: if_splits)
qed

lemma AllocateLayer_times_Inr:
  assumes "AllocateLayer_times n T s = Inr s'" "LayerLastIdx s < MaxLayerCount (plat T)"
  shows "LayerLastIdx s' = LayerLastIdx s + n \<and> LayerLastIdx s' < MaxLayerCount (plat T) \<and>
         (\<forall>i \<le> LayerLastIdx s. Slots s' ! i = Slots s ! i)"
  using assms
proof (induction n arbitrary: s)
  case 0
  then show ?case by simp
next
  case (Suc n)
  from Suc.prems(1) obtain s1 where s1: "AllocateLayer T s = Inr s1"
    "AllocateLayer_times n T s1 = Inr s'"
    by (auto split: sum.splits)
  note A = AllocateLayer_Inr[OF s1(1) Suc.prems(2)]
  have "LayerLastIdx s1 < MaxLayerCount (plat T)" using A by simp
  from Suc.IH[OF s1(2) this] A show ?case by auto
qed

text \<open>
  Claim C2, amended. For every key whose hash value lies below \<open>Primes[LayerLastIdx]\<close>,
  the pair (layer, offset) derived after any number of \<open>AllocateLayer\<close> calls is the
  pair derived before them, and the calls leave every layer that was allocated before
  them as it was. The claim as stated, for every key, fails: \<open>RawHash\<close> masks with
  \<open>NextPower[LayerLastIdx]\<close> and reduces modulo \<open>Primes[LayerLastIdx]\<close>, so the
  address of a key with a larger hash depends on \<open>LayerLastIdx\<close>.
\<close>
theorem address_stable_for_small_hash:
  assumes "AllocateLayer_times n T s = Inr s'"
    and "LayerLastIdx s < MaxLayerCount (plat T)"
    and "Primes (plat T) (LayerLastIdx s) = Some P_last"
    and "Hash T Key mod 2 ^ size_t_bits (plat T) < P_last"
  shows "key_address T s' Key = key_address T s Key \<and>
         (\<forall>i \<le> LayerLastIdx s. Slots s' ! i = Slots s ! i)"
proof -
  note A = AllocateLayer_times_Inr[OF assms(1,2)]
  have h: "Hash T Key mod 2 ^ size_t_bits (plat T) < Primes_tab (plat T) ! Suc (LayerLastIdx s)"
    using assms(3,4) by (simp add: Primes_in_range[OF assms(2)])
  have "LayerLastIdx s \<le> LayerLastIdx s'" using A by simp
  from slot_address_small[OF this _ h] A show ?thesis
    by (simp add: key_address_def)
qed

lemmas init_eval = MAP_INIT_def AllocateLayer_def size_t_traits_def Primes_def Primes_tab_def
  Primes_32b_def Primes_64b_def size_t_add_def size_t_sub_def size_t_bits_def MaxLayerCount_def

lemma AllocateLayer_succeeds:
  assumes "Suc (LayerLastIdx s) < MaxLayerCount (plat T)"
    and "length (Slots s) = MaxLayerCount (plat T)"
  shows "\<exists>s'. AllocateLayer T s = Inr s'"
proof -
  let ?p = "plat T" and ?L = "LayerLastIdx s"
  have L: "?L < MaxLayerCount ?p" using assms(1) by simp
  have n: "size_t_add ?p ?L (Suc 0) = Suc ?L"
    using L MaxLayerCount_small[of ?p] by (simp add: size_t_add_def)
  show ?thesis
    using assms
    by (simp add: AllocateLayer_def n Primes_in_range[OF L] Primes_in_range[OF assms(1)] Let_def)
qed

lemma AllocateLayer_times_succeeds:
  assumes "LayerLastIdx s + n < MaxLayerCount (plat T)"
    and "length (Slots s) = MaxLayerCount (plat T)"
  shows "\<exists>s'. AllocateLayer_times n T s = Inr s'"
  using assms
proof (induction n arbitrary: s)
  case 0
  then show ?case by simp
next
  case (Suc n)
  have "Suc (LayerLastIdx s) < MaxLayerCount (plat T)" using Suc.prems(1) by simp
  from AllocateLayer_succeeds[OF this Suc.prems(2)]
  obtain s1 where s1: "AllocateLayer T s = Inr s1" ..
  have L: "LayerLastIdx s < MaxLayerCount (plat T)" using Suc.prems(1) by simp
  note A = AllocateLayer_Inr[OF s1 L]
  have "LayerLastIdx s1 + n < MaxLayerCount (plat T)" using A Suc.prems(1) by simp
  moreover have "length (Slots s1) = MaxLayerCount (plat T)" using A Suc.prems(2) by simp
  ultimately obtain s' where "AllocateLayer_times n T s1 = Inr s'"
    using Suc.IH by blast
  then show ?case by (simp add: s1)
qed

theorem address_stable_for_small_hash_witness:
  "LayerLastIdx (MAP_INIT (size_t_traits Other64)) < MaxLayerCount (plat (size_t_traits Other64)) \<and>
   Primes (plat (size_t_traits Other64)) (LayerLastIdx (MAP_INIT (size_t_traits Other64))) = Some 2633 \<and>
   Hash (size_t_traits Other64) 100 mod 2 ^ size_t_bits (plat (size_t_traits Other64)) < 2633 \<and>
   (case AllocateLayer_times 2 (size_t_traits Other64) (MAP_INIT (size_t_traits Other64)) of
      Inl e \<Rightarrow> False
    | Inr s' \<Rightarrow>
        key_address (size_t_traits Other64) s' 100 =
          key_address (size_t_traits Other64) (MAP_INIT (size_t_traits Other64)) 100 \<and>
        (\<forall>i \<le> LayerLastIdx (MAP_INIT (size_t_traits Other64)).
           Slots s' ! i = Slots (MAP_INIT (size_t_traits Other64)) ! i))"
proof -
  let ?T = "size_t_traits Other64"
  have h1: "LayerLastIdx (MAP_INIT ?T) < MaxLayerCount (plat ?T)"
    by (simp add: init_eval)
  have h2: "Primes (plat ?T) (LayerLastIdx (MAP_INIT ?T)) = Some 2633"
    by (simp add: init_eval)
  have h3: "Hash ?T 100 mod 2 ^ size_t_bits (plat ?T) < 2633"
    by (simp add: init_eval)
  have "\<exists>s'. AllocateLayer_times 2 ?T (MAP_INIT ?T) = Inr s'"
    by (rule AllocateLayer_times_succeeds) (simp_all add: init_eval)
  then obtain s' where s': "AllocateLayer_times 2 ?T (MAP_INIT ?T) = Inr s'" ..
  show ?thesis
    using h1 h2 h3 address_stable_for_small_hash[OF s' h1 h2 h3]
    by (simp add: s')
qed

text \<open>
  Claim C10. For every key and every \<open>LayerLastIdx\<close> below \<open>MaxLayerCount\<close>:
  \<open>RawHash\<close> returns a value below \<open>Primes[LayerLastIdx]\<close>; \<open>GetLayer\<close> returns a
  layer that is at most \<open>LayerLastIdx\<close>; \<open>GetSlot\<close> returns an offset below
  \<open>Primes[layer] - Primes[layer - 1]\<close>; and in every map whose layers up to
  \<open>LayerLastIdx\<close> have these lengths, the address that \<open>Write\<close>, \<open>Read\<close> and
  \<open>Delete\<close> compute is inside \<open>Slots\<close>.
\<close>
theorem slot_address_in_bounds:
  assumes "L < MaxLayerCount (plat T)"
  shows "\<exists>rawHash P_last layer offset lo hi.
           RawHash T L Key = Some rawHash \<and> Primes (plat T) L = Some P_last \<and>
           rawHash < P_last \<and>
           GetLayer (plat T) rawHash = Some layer \<and> layer \<le> L \<and>
           GetSlot (plat T) rawHash layer = Some offset \<and>
           Primes (plat T) (size_t_sub (plat T) layer 1) = Some lo \<and>
           Primes (plat T) layer = Some hi \<and> offset < hi - lo \<and>
           (\<forall>s. layers_allocated T s \<and> LayerLastIdx s = L \<longrightarrow>
                  key_address T s Key = Some (layer, offset) \<and> in_bounds s layer offset)"
proof -
  let ?p = "plat T"
  define h where "h = Hash T Key mod 2 ^ size_t_bits ?p"
  define r where "r = (h AND NextPower_tab ?p ! L) mod Primes_tab ?p ! Suc L"
  have R: "RawHash_of ?p L h = Some r" and rlt: "r < Primes_tab ?p ! Suc L"
    using RawHash_of_spec[OF assms, of h] by (simp_all add: r_def)
  from GetLayer_spec[OF assms rlt] obtain layer where
    layer: "GetLayer ?p r = Some layer" "layer \<le> L"
      "(if layer = 0 then 0 else Primes_tab ?p ! layer) \<le> r"
      "r < Primes_tab ?p ! Suc layer" by blast
  have lmax: "layer < MaxLayerCount ?p" using layer(2) assms by simp
  define lo where "lo = (if layer = 0 then 0 else Primes_tab ?p ! layer)"
  note slot = GetSlot_spec[OF lmax layer(3,4), folded lo_def]
  have off: "r - lo < Primes_tab ?p ! Suc layer - lo"
    using layer(3,4) by (simp add: lo_def)
  have lo_eq: "lo = Primes_tab ?p ! layer"
    by (simp add: lo_def tab_lengths)
  have addr: "slot_address ?p L h = Some (layer, r - lo)"
    using R layer(1) slot by (simp add: slot_address_def)
  have st: "\<forall>s. layers_allocated T s \<and> LayerLastIdx s = L \<longrightarrow>
              key_address T s Key = Some (layer, r - lo) \<and> in_bounds s layer (r - lo)"
    using addr off layer(2) lmax
    by (auto simp: key_address_def h_def in_bounds_def layers_allocated_def lo_eq)
  show ?thesis
    using R rlt layer(1,2) slot off st Primes_in_range[OF assms] Primes_in_range[OF lmax]
    unfolding RawHash_def h_def[symmetric]
    by blast
qed

theorem slot_address_in_bounds_witness:
  "0 < MaxLayerCount (plat (size_t_traits Other64)) \<and>
   (\<exists>rawHash P_last layer offset lo hi.
           RawHash (size_t_traits Other64) 0 3000 = Some rawHash \<and>
           Primes (plat (size_t_traits Other64)) 0 = Some P_last \<and>
           rawHash < P_last \<and>
           GetLayer (plat (size_t_traits Other64)) rawHash = Some layer \<and> layer \<le> 0 \<and>
           GetSlot (plat (size_t_traits Other64)) rawHash layer = Some offset \<and>
           Primes (plat (size_t_traits Other64)) (size_t_sub (plat (size_t_traits Other64)) layer 1) = Some lo \<and>
           Primes (plat (size_t_traits Other64)) layer = Some hi \<and> offset < hi - lo \<and>
           (\<forall>s. layers_allocated (size_t_traits Other64) s \<and> LayerLastIdx s = 0 \<longrightarrow>
                  key_address (size_t_traits Other64) s 3000 = Some (layer, offset) \<and>
                  in_bounds s layer offset))"
proof -
  have h: "0 < MaxLayerCount (plat (size_t_traits Other64))"
    by (simp add: MaxLayerCount_def size_t_traits_def)
  show ?thesis
    using h slot_address_in_bounds[OF h, of 3000] by simp
qed

lemma layers_allocated_MAP_INIT: "layers_allocated T (MAP_INIT T)"
proof -
  have "Primes (plat T) 0 = Some (Primes_tab (plat T) ! Suc 0)"
    using Primes_in_range[of 0 "plat T"] MaxLayerCount_pos by simp
  then show ?thesis
    using MaxLayerCount_pos[of "plat T"]
    by (simp add: layers_allocated_def MAP_INIT_def resize_def tab_lengths)
qed

lemma AllocateLayer_at_top:
  assumes "Suc (LayerLastIdx s) = MaxLayerCount (plat T)"
  shows "AllocateLayer T s = Inl OutOfBounds"
proof -
  let ?p = "plat T" and ?L = "LayerLastIdx s"
  have L: "?L < MaxLayerCount ?p" using assms by simp
  have n: "size_t_add ?p ?L (Suc 0) = Suc ?L"
    using L MaxLayerCount_small[of ?p] by (simp add: size_t_add_def)
  have "size_t_add ?p (Suc ?L) 1 = Suc (MaxLayerCount ?p)"
    using assms MaxLayerCount_small[of ?p] by (simp add: size_t_add_def)
  then have "Primes ?p (Suc ?L) = None" by (simp add: Primes_def tab_lengths)
  then show ?thesis
    by (simp add: AllocateLayer_def n Primes_in_range[OF L] Let_def)
qed

text \<open>
  Claim C7, amended. The source has no capacity check and no capacity error. Whenever
  \<open>LayerLastIdx + 1\<close> is below \<open>MaxLayerCount\<close>, \<open>AllocateLayer\<close> reads
  \<open>Primes[LayerLastIdx]\<close> and \<open>Primes[LayerLastIdx + 1]\<close> inside the table, resizes
  layer \<open>LayerLastIdx + 1\<close> to their difference, leaves every other layer as it was and
  advances \<open>LayerLastIdx\<close> by one; the growth callback calls it exactly when the global
  value exceeds \<open>Primes[LayerLastIdx]\<close> and returns the prime of the last layer.
\<close>
theorem AllocateLayer_below_top:
  assumes "Suc (LayerLastIdx s) < MaxLayerCount (plat T)"
    and "length (Slots s) = MaxLayerCount (plat T)"
  shows "\<exists>s' OldPrime NewPrime.
           Primes (plat T) (LayerLastIdx s) = Some OldPrime \<and>
           Primes (plat T) (Suc (LayerLastIdx s)) = Some NewPrime \<and>
           AllocateLayer T s = Inr s' \<and>
           LayerLastIdx s' = Suc (LayerLastIdx s) \<and>
           Slots s' ! Suc (LayerLastIdx s) =
             resize (default_Slot T) (Slots s ! Suc (LayerLastIdx s)) (NewPrime - OldPrime) \<and>
           (\<forall>i. i \<noteq> Suc (LayerLastIdx s) \<longrightarrow> Slots s' ! i = Slots s ! i) \<and>
           (\<forall>GlobalValue. RESIZE_FUNC T s GlobalValue =
              (if GlobalValue > OldPrime then Inr (s', NewPrime) else Inr (s, OldPrime)))"
proof -
  let ?p = "plat T" and ?L = "LayerLastIdx s"
  have L: "?L < MaxLayerCount ?p" using assms(1) by simp
  from AllocateLayer_succeeds[OF assms] obtain s' where s': "AllocateLayer T s = Inr s'" ..
  note A = AllocateLayer_Inr[OF s' L]
  have P': "Primes ?p (LayerLastIdx s') = Some (Primes_tab ?p ! Suc (Suc ?L))"
    using A Primes_in_range[OF assms(1)] by simp
  have R: "\<forall>GlobalValue. RESIZE_FUNC T s GlobalValue =
              (if GlobalValue > Primes_tab ?p ! Suc ?L
               then Inr (s', Primes_tab ?p ! Suc (Suc ?L)) else Inr (s, Primes_tab ?p ! Suc ?L))"
    by (simp add: RESIZE_FUNC_def Primes_in_range[OF L] s' P')
  show ?thesis
    using Primes_in_range[OF L] Primes_in_range[OF assms(1)] s' A R by blast
qed

theorem AllocateLayer_below_top_witness:
  "Suc (LayerLastIdx (MAP_INIT (size_t_traits Other32))) < MaxLayerCount (plat (size_t_traits Other32)) \<and>
   length (Slots (MAP_INIT (size_t_traits Other32))) = MaxLayerCount (plat (size_t_traits Other32)) \<and>
   (\<exists>s' OldPrime NewPrime.
           Primes (plat (size_t_traits Other32)) (LayerLastIdx (MAP_INIT (size_t_traits Other32))) = Some OldPrime \<and>
           Primes (plat (size_t_traits Other32)) (Suc (LayerLastIdx (MAP_INIT (size_t_traits Other32)))) = Some NewPrime \<and>
           AllocateLayer (size_t_traits Other32) (MAP_INIT (size_t_traits Other32)) = Inr s' \<and>
           LayerLastIdx s' = Suc (LayerLastIdx (MAP_INIT (size_t_traits Other32))) \<and>
           Slots s' ! Suc (LayerLastIdx (MAP_INIT (size_t_traits Other32))) =
             resize (default_Slot (size_t_traits Other32))
               (Slots (MAP_INIT (size_t_traits Other32)) ! Suc (LayerLastIdx (MAP_INIT (size_t_traits Other32))))
               (NewPrime - OldPrime) \<and>
           (\<forall>i. i \<noteq> Suc (LayerLastIdx (MAP_INIT (size_t_traits Other32))) \<longrightarrow>
              Slots s' ! i = Slots (MAP_INIT (size_t_traits Other32)) ! i) \<and>
           (\<forall>GlobalValue. RESIZE_FUNC (size_t_traits Other32) (MAP_INIT (size_t_traits Other32)) GlobalValue =
              (if GlobalValue > OldPrime then Inr (s', NewPrime)
               else Inr (MAP_INIT (size_t_traits Other32), OldPrime))))"
proof -
  let ?T = "size_t_traits Other32"
  have h1: "Suc (LayerLastIdx (MAP_INIT ?T)) < MaxLayerCount (plat ?T)"
    by (simp add: init_eval)
  have h2: "length (Slots (MAP_INIT ?T)) = MaxLayerCount (plat ?T)"
    by (simp add: init_eval)
  show ?thesis
    using AllocateLayer_below_top[OF h1 h2] h1 h2 by blast
qed

text \<open>
  At the top of the 32-bit table, after 22 growths of a fresh map: \<open>LayerLastIdx + 1\<close>
  is \<open>MaxLayerCount\<close>, the entry \<open>Primes[LayerLastIdx + 1]\<close> does not exist, and
  \<open>AllocateLayer\<close> and the growth callback read it all the same. The result is the
  out-of-bounds access of the model, not a capacity error.
\<close>

theorem AllocateLayer_past_table_counterexample:
  "(case AllocateLayer_times 22 (size_t_traits Other32) (MAP_INIT (size_t_traits Other32)) of
      Inl e \<Rightarrow> False
    | Inr s \<Rightarrow>
        Suc (LayerLastIdx s) = MaxLayerCount Other32 \<and>
        Primes Other32 (Suc (LayerLastIdx s)) = None \<and>
        AllocateLayer (size_t_traits Other32) s = Inl OutOfBounds \<and>
        RESIZE_FUNC (size_t_traits Other32) s 4294967292 = Inl OutOfBounds)"
proof -
  let ?T = "size_t_traits Other32"
  have p: "plat ?T = Other32" by (simp add: size_t_traits_def)
  have L0: "LayerLastIdx (MAP_INIT ?T) < MaxLayerCount (plat ?T)"
    by (simp add: init_eval)
  have "\<exists>s. AllocateLayer_times 22 ?T (MAP_INIT ?T) = Inr s"
    by (rule AllocateLayer_times_succeeds) (simp_all add: init_eval)
  then obtain s where s: "AllocateLayer_times 22 ?T (MAP_INIT ?T) = Inr s" ..
  from AllocateLayer_times_Inr[OF s L0] have L: "LayerLastIdx s = 22"
    by (simp add: MAP_INIT_def)
  then have top: "Suc (LayerLastIdx s) = MaxLayerCount (plat ?T)"
    by (simp add: p MaxLayerCount_def)
  have A: "AllocateLayer ?T s = Inl OutOfBounds" by (rule AllocateLayer_at_top[OF top])
  have P: "Primes Other32 22 = Some 4294967291" "Primes Other32 23 = None"
    by (simp_all add: init_eval)
  have R: "RESIZE_FUNC ?T s 4294967292 = Inl OutOfBounds"
    by (simp add: RESIZE_FUNC_def p L P A)
  show ?thesis using top A R P(2) L by (simp add: s p)
qed

section \<open>The per-thread counter\<close>

text \<open>
  Claim C8, at the failing input. With \<open>Value = 4\<close> and \<open>Threshold = 5\<close> the
  incremented value 5 reaches the threshold. Under MSVC \<open>INCREMENT\<close> yields the new
  value and \<open>Increment\<close> calls \<open>UpdateManager\<close>, then \<open>WaitForGlobalValue\<close>. With
  \<open>std::atomic\<close>, \<open>fetch_add\<close> yields the previous value 4, and \<open>Increment\<close> calls
  \<open>WaitForGlobalValue\<close> only.
\<close>

theorem Increment_fetch_add_compares_old_value:
  "ThreadValue_Increment Other64 \<lparr>Value = 4, Threshold = 5\<rparr> =
     (\<lparr>Value = 5, Threshold = 5\<rparr>, [Call_WaitForGlobalValue]) \<and>
   ThreadValue_Increment MSVC_AMD64 \<lparr>Value = 4, Threshold = 5\<rparr> =
     (\<lparr>Value = 5, Threshold = 5\<rparr>, [Call_UpdateManager, Call_WaitForGlobalValue])"
  by (simp add: ThreadValue_Increment_def INCREMENT_def)

lemma ThreadValue_Increment_msvc:
  "is_msvc p \<Longrightarrow> ThreadValue_Increment p tv =
     (tv\<lparr>Value := Value tv + 1\<rparr>,
      (if Value tv + 1 \<ge> Threshold tv then [Call_UpdateManager] else []) @ [Call_WaitForGlobalValue])"
  by (simp add: ThreadValue_Increment_def INCREMENT_def)

lemma ThreadValue_Increment_atomic:
  "\<not> is_msvc p \<Longrightarrow> ThreadValue_Increment p tv =
     (tv\<lparr>Value := Value tv + 1\<rparr>,
      (if Value tv \<ge> Threshold tv then [Call_UpdateManager] else []) @ [Call_WaitForGlobalValue])"
  by (simp add: ThreadValue_Increment_def INCREMENT_def)

lemma ThreadValue_Decrement_eq:
  "ThreadValue_Decrement p tv = (tv\<lparr>Value := Value tv - 1\<rparr>, [Call_WaitForGlobalValue])"
  by (simp add: ThreadValue_Decrement_def DECREMENT_def)

section \<open>The lock word of a slot between operations\<close>

lemma map_lock_inv_iff:
  "map_lock_inv s = (\<forall>i < length (Slots s). \<forall>j < length (Slots s ! i). slot_lock_inv (Slots s ! i ! j))"
  unfolding map_lock_inv_def by (metis in_set_conv_nth)

lemma slot_lock_inv_default: "slot_lock_inv (default_Slot T)"
  by (simp add: slot_lock_inv_def default_Slot_def)

lemma set_Slot_locked:
  assumes "map_lock_inv s" "in_bounds s li si"
  shows "slots_lock_inv_except (set_Slot s li si x) li si \<and> in_bounds (set_Slot s li si x) li si \<and>
         get_Slot (set_Slot s li si x) li si = x"
  using assms
  by (auto simp: map_lock_inv_iff slots_lock_inv_except_def set_Slot_def in_bounds_def get_Slot_def
      nth_list_update)

lemma set_Slot_unlocked:
  assumes "slots_lock_inv_except s li si" "in_bounds s li si" "slot_lock_inv x"
  shows "map_lock_inv (set_Slot s li si x)"
  using assms
  by (auto simp: map_lock_inv_iff slots_lock_inv_except_def set_Slot_def in_bounds_def nth_list_update)

lemma release_eq:
  "release s li si v = set_Slot s li si ((get_Slot s li si)\<lparr>Lock := v\<rparr>)"
  by (simp add: release_def write_unlock_def Let_def)

lemma nth_resize:
  "j < n \<Longrightarrow> resize d xs n ! j = (if j < length xs then xs ! j else d)"
  by (simp add: resize_def nth_append)

lemma length_resize: "length (resize d xs n) = n"
  by (simp add: resize_def)

lemma grow_frame:
  assumes "slots_lock_inv_except s li si" "in_bounds s li si" "li \<le> LayerLastIdx s"
    and "Slots s' = (Slots s)[Suc (LayerLastIdx s) :=
                       resize (default_Slot T) (Slots s ! Suc (LayerLastIdx s)) k]"
  shows "slots_lock_inv_except s' li si \<and> in_bounds s' li si \<and> get_Slot s' li si = get_Slot s li si"
proof -
  let ?n = "Suc (LayerLastIdx s)"
  have ne: "li \<noteq> ?n" using assms(3) by simp
  have "slot_lock_inv (Slots s' ! i ! j)"
    if "i < length (Slots s')" "j < length (Slots s' ! i)" "(i, j) \<noteq> (li, si)" for i j
  proof (cases "i = ?n")
    case True
    then have j: "j < k" using that by (simp add: assms(4) length_resize)
    have i: "i < length (Slots s)" using that by (simp add: assms(4))
    show ?thesis
    proof (cases "j < length (Slots s ! ?n)")
      case True
      then have "slot_lock_inv (Slots s ! ?n ! j)"
        using assms(1) i \<open>i = ?n\<close> ne by (auto simp: slots_lock_inv_except_def)
      then show ?thesis using i j True \<open>i = ?n\<close> by (simp add: assms(4) nth_resize)
    next
      case False
      then show ?thesis using i j \<open>i = ?n\<close>
        by (simp add: assms(4) nth_resize slot_lock_inv_default)
    qed
  next
    case False
    then show ?thesis using that assms(1)
      by (auto simp: assms(4) slots_lock_inv_except_def)
  qed
  then have "slots_lock_inv_except s' li si" by (simp add: slots_lock_inv_except_def)
  moreover have "in_bounds s' li si \<and> get_Slot s' li si = get_Slot s li si"
    using assms(2) ne by (simp add: in_bounds_def get_Slot_def assms(4))
  ultimately show ?thesis by simp
qed

lemma slot_address_spec:
  assumes "L < MaxLayerCount p"
  shows "\<exists>layer offset. slot_address p L h = Some (layer, offset) \<and> layer \<le> L \<and>
           offset < Primes_tab p ! Suc layer - Primes_tab p ! layer"
proof -
  define r where "r = (h AND NextPower_tab p ! L) mod Primes_tab p ! Suc L"
  have R: "RawHash_of p L h = Some r" and rlt: "r < Primes_tab p ! Suc L"
    using RawHash_of_spec[OF assms, of h] by (simp_all add: r_def)
  from GetLayer_spec[OF assms rlt] obtain layer where
    layer: "GetLayer p r = Some layer" "layer \<le> L"
      "(if layer = 0 then 0 else Primes_tab p ! layer) \<le> r"
      "r < Primes_tab p ! Suc layer" by blast
  have lmax: "layer < MaxLayerCount p" using layer(2) assms by simp
  define lo where "lo = (if layer = 0 then 0 else Primes_tab p ! layer)"
  note slot = GetSlot_spec[OF lmax layer(3,4), folded lo_def]
  have off: "r - lo < Primes_tab p ! Suc layer - lo"
    using layer(3,4) by (simp add: lo_def)
  have lo_eq: "lo = Primes_tab p ! layer"
    by (simp add: lo_def tab_lengths)
  have "slot_address p L h = Some (layer, r - lo)"
    using R layer(1) slot by (simp add: slot_address_def)
  then show ?thesis using layer(2) off lo_eq by auto
qed

lemma slot_address_Some_range:
  assumes "slot_address p L h = Some a"
  shows "L < MaxLayerCount p"
proof (rule ccontr)
  assume "\<not> L < MaxLayerCount p"
  then have "NextPower p L = None" by (simp add: NextPower_def tab_lengths)
  then show False using assms by (simp add: slot_address_def RawHash_of_def)
qed

lemma key_address_Some:
  assumes "key_address T s Key = Some (li, si)"
  shows "LayerLastIdx s < MaxLayerCount (plat T) \<and> li \<le> LayerLastIdx s"
proof -
  have L: "LayerLastIdx s < MaxLayerCount (plat T)"
    using assms slot_address_Some_range by (simp add: key_address_def)
  from slot_address_spec[OF L, of "Hash T Key mod 2 ^ size_t_bits (plat T)"] assms show ?thesis
    using L by (auto simp: key_address_def)
qed

lemma AllocateLayer_form:
  assumes "AllocateLayer T s = Inr s'" "LayerLastIdx s < MaxLayerCount (plat T)"
  shows "\<exists>k. s' = s\<lparr>LayerLastIdx := Suc (LayerLastIdx s),
                     Slots := (Slots s)[Suc (LayerLastIdx s) :=
                        resize (default_Slot T) (Slots s ! Suc (LayerLastIdx s)) k]\<rparr>"
proof -
  have n: "size_t_add (plat T) (LayerLastIdx s) (Suc 0) = Suc (LayerLastIdx s)"
    using assms(2) MaxLayerCount_small[of "plat T"] by (simp add: size_t_add_def)
  show ?thesis
    using assms(1)
    by (auto simp: AllocateLayer_def n Let_def split: option.splits if_splits)
qed

lemma RESIZE_FUNC_frame:
  assumes "RESIZE_FUNC T s G = Inr (s', g)" "LayerLastIdx s < MaxLayerCount (plat T)"
  shows "s' = s \<or>
         (\<exists>k. s' = s\<lparr>LayerLastIdx := Suc (LayerLastIdx s),
                     Slots := (Slots s)[Suc (LayerLastIdx s) :=
                        resize (default_Slot T) (Slots s ! Suc (LayerLastIdx s)) k]\<rparr>)"
  using assms AllocateLayer_form[of T s]
  by (auto simp: RESIZE_FUNC_def split: option.splits if_splits sum.splits)

lemma UpdateManagerInternal_frame:
  assumes "UpdateManagerInternal T s = Inr s'" "LayerLastIdx s < MaxLayerCount (plat T)"
  shows "((Slots s' = Slots s \<and> LayerLastIdx s' = LayerLastIdx s) \<or>
          (\<exists>k. LayerLastIdx s' = Suc (LayerLastIdx s) \<and>
                Slots s' = (Slots s)[Suc (LayerLastIdx s) :=
                        resize (default_Slot T) (Slots s ! Suc (LayerLastIdx s)) k])) \<and>
         DTOR_ThreadValuesSum s' = DTOR_ThreadValuesSum s \<and>
         Value (Values_self s') = Value (Values_self s) \<and>
         map Value (ThreadValues_rest s') = map Value (ThreadValues_rest s)"
proof -
  from assms(1) obtain s1 g where
    R: "RESIZE_FUNC T s (to_uInt (plat T) (ThreadValuesSum s + DTOR_ThreadValuesSum s)) = Inr (s1, g)"
    by (auto simp: UpdateManagerInternal_def Let_def split: sum.splits)
  with assms(1) obtain m where
    s': "s' = s1\<lparr>Values_self := AdjustThreadThreshold (Values_self s1) m,
                  ThreadValues_rest := map (\<lambda>tv. AdjustThreadThreshold tv m) (ThreadValues_rest s1)\<rparr>"
    by (auto simp: UpdateManagerInternal_def Let_def)
  from RESIZE_FUNC_frame[OF R assms(2)] show ?thesis
    by (auto simp: s' AdjustThreadThreshold_def comp_def)
qed

lemma Increment_frame:
  assumes "Increment T s = Inr s'" "LayerLastIdx s < MaxLayerCount (plat T)"
  shows "((Slots s' = Slots s \<and> LayerLastIdx s' = LayerLastIdx s) \<or>
          (\<exists>k. LayerLastIdx s' = Suc (LayerLastIdx s) \<and>
                Slots s' = (Slots s)[Suc (LayerLastIdx s) :=
                        resize (default_Slot T) (Slots s ! Suc (LayerLastIdx s)) k])) \<and>
         DTOR_ThreadValuesSum s' = DTOR_ThreadValuesSum s \<and>
         Value (Values_self s') = Value (Values_self s) + 1 \<and>
         map Value (ThreadValues_rest s') = map Value (ThreadValues_rest s)"
proof -
  define s0 where "s0 = s\<lparr>Values_self := (Values_self s)\<lparr>Value := Value (Values_self s) + 1\<rparr>\<rparr>"
  have L0: "LayerLastIdx s0 < MaxLayerCount (plat T)" using assms(2) by (simp add: s0_def)
  have "s' = s0 \<or> UpdateManagerInternal T s0 = Inr s'"
    using assms(1)
    by (auto simp: Increment_def ThreadValue_Increment_def INCREMENT_def Let_def s0_def
        UpdateManager_def WaitForGlobalValue_def split: if_splits sum.splits)
  then show ?thesis
  proof
    assume "s' = s0" then show ?thesis by (simp add: s0_def)
  next
    assume "UpdateManagerInternal T s0 = Inr s'"
    from UpdateManagerInternal_frame[OF this L0] show ?thesis by (simp add: s0_def)
  qed
qed

lemma Decrement_eq:
  "Decrement T s = Inr (s\<lparr>Values_self := (Values_self s)\<lparr>Value := Value (Values_self s) - 1\<rparr>\<rparr>)"
  by (simp add: Decrement_def ThreadValue_Decrement_def DECREMENT_def WaitForGlobalValue_def)

lemma Write_shape:
  assumes "Write T s Key Val = Inr s'"
  shows "\<exists>li si y. key_address T s Key = Some (li, si) \<and> in_bounds s li si \<and>
           ((\<exists>s2. Increment T (set_Slot s li si y) = Inr s2 \<and> s' = release s2 li si POPULATED) \<or>
            s' = release (set_Slot s li si y) li si POPULATED)"
proof (cases "key_address T s Key")
  case None
  then show ?thesis using assms by (simp add: Write_def)
next
  case (Some a)
  obtain li si where a: "a = (li, si)" by (cases a)
  have ib: "in_bounds s li si"
    using assms Some a by (simp add: Write_def split: if_splits)
  obtain Held WL where wl: "write_lock (Lock (get_Slot s li si)) = Some (Held, WL)"
    using assms Some a ib by (cases "write_lock (Lock (get_Slot s li si))") (auto simp: Write_def Let_def)
  have "(\<exists>y s2. Increment T (set_Slot s li si y) = Inr s2 \<and> s' = release s2 li si POPULATED) \<or>
        (\<exists>y. s' = release (set_Slot s li si y) li si POPULATED)"
    using assms unfolding Write_def Some a Let_def
    apply (simp add: ib wl split: if_splits sum.splits)
       apply blast+
    done
  then show ?thesis using Some a ib by blast
qed

lemma lock_words:
  "write_lock EMPTY = Some (EMPTY OR WRITER_BIT_MASK, EMPTY)"
  "write_lock POPULATED = Some (POPULATED OR WRITER_BIT_MASK, POPULATED)"
  "read_lock EMPTY = Some (EMPTY + 1, EMPTY)"
  "read_lock POPULATED = Some (POPULATED + 1, POPULATED)"
  "POPULATED \<noteq> EMPTY"
  by (simp_all add: write_lock_def read_lock_def EMPTY_def POPULATED_def WRITER_BIT_MASK_def
      VALUE_BITS_MASK_def READER_COUNT_MASK_def)

lemma read_unlock_read_lock: "read_unlock (w + 1) = w"
  by (simp add: read_unlock_def)

lemma slot_lock_inv_POPULATED: "slot_lock_inv (x\<lparr>Lock := POPULATED\<rparr>)"
  by (simp add: slot_lock_inv_def)

lemma slot_lock_inv_EMPTY: "Collisions x = [] \<Longrightarrow> slot_lock_inv (x\<lparr>Lock := EMPTY\<rparr>)"
  by (simp add: slot_lock_inv_def)

lemma locked_Slots_cong:
  assumes "Slots s2 = Slots s1"
  shows "slots_lock_inv_except s2 li si = slots_lock_inv_except s1 li si"
    and "in_bounds s2 li si = in_bounds s1 li si"
    and "get_Slot s2 li si = get_Slot s1 li si"
  using assms by (simp_all add: slots_lock_inv_except_def in_bounds_def get_Slot_def)

lemma Increment_keeps_locked:
  assumes "slots_lock_inv_except s1 li si" "in_bounds s1 li si" "li \<le> LayerLastIdx s1"
    and "LayerLastIdx s1 < MaxLayerCount (plat T)" and "Increment T s1 = Inr s2"
  shows "slots_lock_inv_except s2 li si \<and> in_bounds s2 li si \<and> get_Slot s2 li si = get_Slot s1 li si"
proof -
  from Increment_frame[OF assms(5,4)]
  consider "Slots s2 = Slots s1"
    | k where "Slots s2 = (Slots s1)[Suc (LayerLastIdx s1) :=
                        resize (default_Slot T) (Slots s1 ! Suc (LayerLastIdx s1)) k]"
    by blast
  then show ?thesis
  proof cases
    case 1
    then show ?thesis using assms(1,2) by (simp add: locked_Slots_cong[OF 1])
  next
    case 2
    from grow_frame[OF assms(1,2,3) 2] show ?thesis .
  qed
qed

lemma release_locked:
  assumes "slots_lock_inv_except s2 li si" "in_bounds s2 li si"
    and "slot_lock_inv ((get_Slot s2 li si)\<lparr>Lock := v\<rparr>)"
  shows "map_lock_inv (release s2 li si v)"
  unfolding release_eq using assms by (rule set_Slot_unlocked)

lemma Write_inv:
  assumes inv: "map_lock_inv s" and W: "Write T s Key Val = Inr s'"
  shows "map_lock_inv s'"
proof -
  from Write_shape[OF W] obtain li si y where
    a: "key_address T s Key = Some (li, si)" and ib: "in_bounds s li si" and
    sh: "(\<exists>s2. Increment T (set_Slot s li si y) = Inr s2 \<and> s' = release s2 li si POPULATED) \<or>
            s' = release (set_Slot s li si y) li si POPULATED" by blast
  note ka = key_address_Some[OF a]
  have a1: "slots_lock_inv_except (set_Slot s li si y) li si" and a2: "in_bounds (set_Slot s li si y) li si"
    using set_Slot_locked[OF inv ib, of y] by blast+
  from sh show ?thesis
  proof
    assume "\<exists>s2. Increment T (set_Slot s li si y) = Inr s2 \<and> s' = release s2 li si POPULATED"
    then obtain s2 where inc: "Increment T (set_Slot s li si y) = Inr s2"
      and s': "s' = release s2 li si POPULATED" by blast
    have L1: "LayerLastIdx (set_Slot s li si y) = LayerLastIdx s" by (simp add: set_Slot_def)
    have a3: "li \<le> LayerLastIdx (set_Slot s li si y)"
      and a4: "LayerLastIdx (set_Slot s li si y) < MaxLayerCount (plat T)"
      using ka unfolding L1 by blast+
    from Increment_keeps_locked[OF a1 a2 a3 a4 inc]
    have "slots_lock_inv_except s2 li si" "in_bounds s2 li si" by blast+
    then show ?thesis unfolding s' by (rule release_locked) (rule slot_lock_inv_POPULATED)
  next
    assume "s' = release (set_Slot s li si y) li si POPULATED"
    then show ?thesis using a1 a2 by (simp add: release_locked slot_lock_inv_POPULATED)
  qed
qed

lemma set_Slot_same: "set_Slot s li si (get_Slot s li si) = s"
  by (simp add: set_Slot_def get_Slot_def)

lemma release_set_Slot:
  assumes "in_bounds s li si"
  shows "release (set_Slot s li si y) li si v = set_Slot s li si (y\<lparr>Lock := v\<rparr>)"
  using assms by (simp add: release_eq set_Slot_def get_Slot_def in_bounds_def)

lemma release_Values_self:
  "release (s\<lparr>Values_self := tv\<rparr>) li si v = (release s li si v)\<lparr>Values_self := tv\<rparr>"
  by (simp add: release_eq set_Slot_def get_Slot_def)

lemma Delete_cases:
  assumes a: "key_address T s Key = Some (li, si)" and ib: "in_bounds s li si"
    and xinv: "slot_lock_inv (get_Slot s li si)"
  shows "Delete T s Key =
    (let x = get_Slot s li si;
         dec = (Values_self s)\<lparr>Value := Value (Values_self s) - 1\<rparr>;
         CollisionIt = find_if (\<lambda>KeyVal. Pred T (fst KeyVal) Key) (Collisions x)
     in if Lock x = EMPTY then Inr (False, s)
        else if Pred T (fst (Main x)) Key then
          (if Collisions x \<noteq> []
           then Inr (True, (set_Slot s li si
                  (x\<lparr>Main := last (Collisions x), Collisions := butlast (Collisions x)\<rparr>))
                  \<lparr>Values_self := dec\<rparr>)
           else Inr (True, (set_Slot s li si (x\<lparr>Lock := EMPTY\<rparr>))\<lparr>Values_self := dec\<rparr>))
        else if CollisionIt \<noteq> length (Collisions x)
          then Inr (True, (set_Slot s li si
                 (x\<lparr>Collisions := butlast ((Collisions x)[CollisionIt := last (Collisions x)])\<rparr>))
                 \<lparr>Values_self := dec\<rparr>)
          else Inr (False, s))"
proof -
  define x where "x = get_Slot s li si"
  have wl: "write_lock (Lock x) = Some (Lock x OR WRITER_BIT_MASK, Lock x)"
    using xinv by (auto simp: slot_lock_inv_def lock_words x_def)
  have same: "set_Slot s li si (x\<lparr>Lock := Lock x\<rparr>) = s"
    using set_Slot_same[of s li si] by (simp add: x_def)
  have ib': "in_bounds (s\<lparr>Values_self := tv\<rparr>) li si" for tv
    using ib by (simp add: in_bounds_def)
  have setv: "set_Slot (s\<lparr>Values_self := tv\<rparr>) li si y = (set_Slot s li si y)\<lparr>Values_self := tv\<rparr>" for tv y
    by (simp add: set_Slot_def)
  have P: "Lock x \<noteq> EMPTY \<Longrightarrow> Lock x = POPULATED"
    using xinv by (auto simp: slot_lock_inv_def x_def)
  have vs: "Values_self (set_Slot s li si y) = Values_self s" for y
    by (simp add: set_Slot_def)
  obtain lk mn cs where xeq: "x = \<lparr>Lock = lk, Main = mn, Collisions = cs\<rparr>"
    by (cases x)
  show ?thesis
  proof (cases "Lock x = EMPTY")
    case True
    then show ?thesis
      using same
      by (simp add: Delete_def a ib x_def[symmetric] lock_words Let_def release_set_Slot[OF ib])
  next
    case False
    note nE = this
    note Px = P[OF this]
    have same': "set_Slot s li si (x\<lparr>Lock := POPULATED\<rparr>) = s"
      using same Px by simp
    show ?thesis
    proof (cases "Pred T (fst (Main x)) Key")
      case True
      then show ?thesis
        using nE Px
        by (simp add: Delete_def a ib x_def[symmetric] wl Let_def Decrement_eq
            release_Values_self release_set_Slot[OF ib] lock_words vs)
           (simp add: xeq)
    next
      case False
      then show ?thesis
        using nE Px same'
        by (simp add: Delete_def a ib x_def[symmetric] wl Let_def Decrement_eq
            release_Values_self release_set_Slot[OF ib] lock_words vs)
           (simp add: xeq)
    qed
  qed
qed

lemma map_lock_inv_slot:
  "map_lock_inv s \<Longrightarrow> in_bounds s li si \<Longrightarrow> slot_lock_inv (get_Slot s li si)"
  by (auto simp: map_lock_inv_iff in_bounds_def get_Slot_def)

lemma map_lock_inv_set_Slot:
  assumes "map_lock_inv s" "in_bounds s li si" "slot_lock_inv y"
  shows "map_lock_inv (set_Slot s li si y)"
proof -
  have "slots_lock_inv_except s li si"
    using assms(1) by (simp add: map_lock_inv_iff slots_lock_inv_except_def)
  from set_Slot_unlocked[OF this assms(2,3)] show ?thesis .
qed

lemma map_lock_inv_Values_self: "map_lock_inv (s\<lparr>Values_self := tv\<rparr>) = map_lock_inv s"
  by (simp add: map_lock_inv_def)

lemma get_Slot_set_Slot:
  "in_bounds s li si \<Longrightarrow> get_Slot (set_Slot s li si y) li si = y"
  by (simp add: get_Slot_def set_Slot_def in_bounds_def)

lemma get_Slot_Values_self: "get_Slot (s\<lparr>Values_self := tv\<rparr>) li si = get_Slot s li si"
  by (simp add: get_Slot_def)

lemma Delete_shape:
  assumes "Delete T s Key = Inr (d, s')"
  shows "\<exists>li si. key_address T s Key = Some (li, si) \<and> in_bounds s li si"
proof (cases "key_address T s Key")
  case None
  then show ?thesis using assms by (simp add: Delete_def)
next
  case (Some a)
  obtain li si where a: "a = (li, si)" by (cases a)
  have "in_bounds s li si"
    using assms Some a by (simp add: Delete_def split: if_splits)
  then show ?thesis using Some a by simp
qed

lemma Delete_inv:
  assumes inv: "map_lock_inv s" and D: "Delete T s Key = Inr (d, s')"
  shows "map_lock_inv s'"
proof -
  from Delete_shape[OF D] obtain li si where
    a: "key_address T s Key = Some (li, si)" and ib: "in_bounds s li si" by blast
  define x where "x = get_Slot s li si"
  have xinv: "slot_lock_inv x" unfolding x_def by (rule map_lock_inv_slot[OF inv ib])
  have P: "Lock x \<noteq> EMPTY \<Longrightarrow> Lock x = POPULATED"
    using xinv by (auto simp: slot_lock_inv_def)
  have y1: "Lock x \<noteq> EMPTY \<Longrightarrow> slot_lock_inv (x\<lparr>Main := m, Collisions := c\<rparr>)" for m c
    using P by (simp add: slot_lock_inv_def)
  have y2: "Collisions x = [] \<Longrightarrow> slot_lock_inv (x\<lparr>Lock := EMPTY\<rparr>)"
    by (rule slot_lock_inv_EMPTY)
  have y3: "Lock x \<noteq> EMPTY \<Longrightarrow> slot_lock_inv (x\<lparr>Collisions := c\<rparr>)" for c
    using P by (simp add: slot_lock_inv_def)
  note m = map_lock_inv_set_Slot[OF inv ib]
  from D inv show ?thesis
    unfolding Delete_cases[OF a ib xinv[unfolded x_def]] Let_def x_def[symmetric]
    by (auto simp: map_lock_inv_Values_self m y1 y2 y3 split: if_splits)
qed

lemma Read_cases:
  assumes a: "key_address T s Key = Some (li, si)" and ib: "in_bounds s li si"
    and xinv: "slot_lock_inv (get_Slot s li si)"
  shows "Read T s Key =
    (let x = get_Slot s li si;
         CollisionIt = find_if (\<lambda>KeyVal. Pred T (fst KeyVal) Key) (Collisions x)
     in if Lock x = EMPTY then Inl out_of_range
        else if Pred T (fst (Main x)) Key then Inr (snd (Main x))
        else if CollisionIt = length (Collisions x) then Inl out_of_range
        else Inr (snd (Collisions x ! CollisionIt)))"
    and "Read_map T s Key = s"
proof -
  define x where "x = get_Slot s li si"
  have rl: "read_lock (Lock x) = Some (Lock x + 1, Lock x)"
    using xinv by (auto simp: slot_lock_inv_def lock_words x_def)
  have same: "set_Slot s li si x = s"
    using set_Slot_same[of s li si] by (simp add: x_def)
  show "Read T s Key =
    (let x = get_Slot s li si;
         CollisionIt = find_if (\<lambda>KeyVal. Pred T (fst KeyVal) Key) (Collisions x)
     in if Lock x = EMPTY then Inl out_of_range
        else if Pred T (fst (Main x)) Key then Inr (snd (Main x))
        else if CollisionIt = length (Collisions x) then Inl out_of_range
        else Inr (snd (Collisions x ! CollisionIt)))"
    by (simp add: Read_def a ib x_def[symmetric] rl Let_def)
  show "Read_map T s Key = s"
    by (simp add: Read_map_def a ib x_def[symmetric] rl Let_def read_unlock_read_lock same)
qed

lemma Read_map_lock_inv:
  assumes "map_lock_inv s" shows "map_lock_inv (Read_map T s Key)"
proof (cases "key_address T s Key")
  case None
  then show ?thesis using assms by (simp add: Read_map_def)
next
  case (Some a)
  obtain li si where a: "a = (li, si)" by (cases a)
  show ?thesis
  proof (cases "in_bounds s li si")
    case True
    from Read_cases(2)[OF Some[unfolded a] True map_lock_inv_slot[OF assms True]]
    show ?thesis using assms by simp
  next
    case False
    then show ?thesis using assms Some a by (simp add: Read_map_def)
  qed
qed

lemma Write_populates:
  assumes W: "Write T s Key Val = Inr s'" and a: "key_address T s Key = Some (li, si)"
    and inv: "map_lock_inv s"
  shows "in_bounds s' li si \<and> Lock (get_Slot s' li si) = POPULATED"
proof -
  from Write_shape[OF W] a obtain y where
    ib: "in_bounds s li si" and
    sh: "(\<exists>s2. Increment T (set_Slot s li si y) = Inr s2 \<and> s' = release s2 li si POPULATED) \<or>
            s' = release (set_Slot s li si y) li si POPULATED" by auto
  note ka = key_address_Some[OF a]
  have a1: "slots_lock_inv_except (set_Slot s li si y) li si" and a2: "in_bounds (set_Slot s li si y) li si"
    using set_Slot_locked[OF inv ib, of y] by blast+
  have rel: "in_bounds t li si \<Longrightarrow>
      in_bounds (release t li si POPULATED) li si \<and>
      Lock (get_Slot (release t li si POPULATED) li si) = POPULATED" for t
    by (simp add: release_eq in_bounds_def get_Slot_def set_Slot_def)
  from sh show ?thesis
  proof
    assume "\<exists>s2. Increment T (set_Slot s li si y) = Inr s2 \<and> s' = release s2 li si POPULATED"
    then obtain s2 where inc: "Increment T (set_Slot s li si y) = Inr s2"
      and s': "s' = release s2 li si POPULATED" by blast
    have L1: "LayerLastIdx (set_Slot s li si y) = LayerLastIdx s" by (simp add: set_Slot_def)
    have a3: "li \<le> LayerLastIdx (set_Slot s li si y)"
      and a4: "LayerLastIdx (set_Slot s li si y) < MaxLayerCount (plat T)"
      using ka unfolding L1 by blast+
    from Increment_keeps_locked[OF a1 a2 a3 a4 inc] have "in_bounds s2 li si" by blast
    from rel[OF this] show ?thesis unfolding s' .
  next
    assume "s' = release (set_Slot s li si y) li si POPULATED"
    with rel[OF a2] show ?thesis by simp
  qed
qed

lemma map_lock_inv_MAP_INIT: "map_lock_inv (MAP_INIT T)"
proof -
  have "slot_lock_inv x" if "layer \<in> set (Slots (MAP_INIT T))" "x \<in> set layer" for layer x
  proof -
    from that(1) have "layer = [] \<or> layer = resize (default_Slot T) []
        (case Primes (plat T) 0 of Some FirstPrime \<Rightarrow> FirstPrime | None \<Rightarrow> 0)"
      by (auto simp: MAP_INIT_def dest!: set_update_subset_insert[THEN subsetD])
    with that(2) have "x = default_Slot T" by (auto simp: resize_def)
    then show ?thesis by (simp add: slot_lock_inv_default)
  qed
  then show ?thesis by (auto simp: map_lock_inv_def)
qed


section \<open>Closed forms of the operations\<close>

lemma Increment_quiet:
  assumes "\<not> Threshold (Values_self s) \<le>
             (if is_msvc (plat T) then Value (Values_self s) + 1 else Value (Values_self s))"
  shows "Increment T s = Inr (s\<lparr>Values_self := (Values_self s)\<lparr>Value := Value (Values_self s) + 1\<rparr>\<rparr>)"
  using assms
  by (simp add: Increment_def ThreadValue_Increment_def INCREMENT_def WaitForGlobalValue_def)

lemma Increment_update:
  assumes "Threshold (Values_self s) \<le>
             (if is_msvc (plat T) then Value (Values_self s) + 1 else Value (Values_self s))"
  shows "Increment T s =
           UpdateManagerInternal T (s\<lparr>Values_self := (Values_self s)\<lparr>Value := Value (Values_self s) + 1\<rparr>\<rparr>)"
  using assms
  by (simp add: Increment_def ThreadValue_Increment_def INCREMENT_def WaitForGlobalValue_def
      UpdateManager_def split: sum.splits)

lemma Write_cases:
  assumes a: "key_address T s Key = Some (li, si)" and ib: "in_bounds s li si"
    and xinv: "slot_lock_inv (get_Slot s li si)"
  shows "Write T s Key Val =
    (let x = get_Slot s li si;
         CollisionIt = find_if (\<lambda>KeyVal. Pred T (fst KeyVal) Key) (Collisions x)
     in if Lock x = EMPTY then
          (case Increment T (set_Slot s li si (x\<lparr>Lock := EMPTY OR WRITER_BIT_MASK, Main := (Key, Val)\<rparr>)) of
             Inl e \<Rightarrow> Inl e
           | Inr s' \<Rightarrow> Inr (release s' li si POPULATED))
        else if Pred T (fst (Main x)) Key then
          Inr (set_Slot s li si (x\<lparr>Main := (fst (Main x), Val)\<rparr>))
        else if CollisionIt = length (Collisions x) then
          (case Increment T (set_Slot s li si
                   (x\<lparr>Lock := POPULATED OR WRITER_BIT_MASK, Collisions := Collisions x @ [(Key, Val)]\<rparr>)) of
             Inl e \<Rightarrow> Inl e
           | Inr s' \<Rightarrow> Inr (release s' li si POPULATED))
        else Inr (set_Slot s li si
               (x\<lparr>Collisions := (Collisions x)[CollisionIt := (fst (Collisions x ! CollisionIt), Val)]\<rparr>)))"
proof -
  define x where "x = get_Slot s li si"
  have P: "Lock x \<noteq> EMPTY \<Longrightarrow> Lock x = POPULATED"
    using xinv by (auto simp: slot_lock_inv_def x_def)
  obtain lk mn cs where xeq: "x = \<lparr>Lock = lk, Main = mn, Collisions = cs\<rparr>"
    by (cases x)
  show ?thesis
  proof (cases "Lock x = EMPTY")
    case True
    then show ?thesis
      by (simp add: Write_def a ib x_def[symmetric] lock_words Let_def)
  next
    case False
    note Px = P[OF this]
    show ?thesis
      using False Px
      by (simp add: Write_def a ib x_def[symmetric] lock_words Let_def release_set_Slot[OF ib])
         (simp add: xeq)
  qed
qed

lemma release_Values_self_POP:
  assumes "in_bounds s li si"
  shows "release ((set_Slot s li si y)\<lparr>Values_self := tv\<rparr>) li si v =
         (set_Slot s li si (y\<lparr>Lock := v\<rparr>))\<lparr>Values_self := tv\<rparr>"
  by (simp add: release_Values_self release_set_Slot[OF assms])

lemma Write_empty_quiet:
  assumes a: "key_address T s Key = Some (li, si)" and ib: "in_bounds s li si"
    and E: "Lock (get_Slot s li si) = EMPTY" and C: "Collisions (get_Slot s li si) = []"
    and q: "\<not> Threshold (Values_self s) \<le>
             (if is_msvc (plat T) then Value (Values_self s) + 1 else Value (Values_self s))"
  shows "Write T s Key Val =
           Inr ((set_Slot s li si ((get_Slot s li si)\<lparr>Main := (Key, Val), Lock := POPULATED\<rparr>))
                  \<lparr>Values_self := (Values_self s)\<lparr>Value := Value (Values_self s) + 1\<rparr>\<rparr>)"
proof -
  have xinv: "slot_lock_inv (get_Slot s li si)" using E C by (simp add: slot_lock_inv_def)
  have vs: "Values_self (set_Slot s li si y) = Values_self s" for y
    by (simp add: set_Slot_def)
  have q': "\<not> Threshold (Values_self (set_Slot s li si y)) \<le>
             (if is_msvc (plat T) then Value (Values_self (set_Slot s li si y)) + 1
              else Value (Values_self (set_Slot s li si y)))" for y
    using q by (auto simp: vs split: if_splits)
  show ?thesis
    unfolding Write_cases[OF a ib xinv] Let_def
    by (simp add: E Increment_quiet[OF q'] vs release_Values_self_POP[OF ib])
qed

lemma size_t_bits_ge: "32 \<le> size_t_bits p"
  by (cases p) (simp_all add: size_t_bits_def)

lemma pow31_le: "(2::nat) ^ 31 \<le> 2 ^ (size_t_bits p - 1)"
  using size_t_bits_ge[of p] by (intro power_increasing) simp_all

lemma pow_bits_split: "(2::nat) ^ size_t_bits p = 2 * 2 ^ (size_t_bits p - 1)"
proof -
  have "size_t_bits p = Suc (size_t_bits p - 1)" using size_t_bits_ge[of p] by simp
  then show ?thesis by (metis power_Suc)
qed

lemma to_sInt_small:
  assumes "n < 2 ^ 31"
  shows "to_sInt p n = int n"
proof -
  have 1: "n < 2 ^ (size_t_bits p - 1)" using assms pow31_le[of p] by simp
  then have 2: "n < 2 ^ size_t_bits p" using pow_bits_split[of p] by simp
  show ?thesis using 1 2 by (simp add: to_sInt_def)
qed

lemma to_uInt_small:
  assumes "0 \<le> i" "i < 2 ^ 31"
  shows "to_uInt p i = nat i"
proof -
  have "nat i < 2 ^ 31" using assms by (simp add: nat_less_iff)
  then have "nat i < 2 ^ size_t_bits p"
    using pow31_le[of p] pow_bits_split[of p] by simp
  then have "i < 2 ^ size_t_bits p" using assms(1) by (simp add: nat_less_iff)
  then show ?thesis using assms(1) by (simp add: to_uInt_def)
qed

lemma size_t_sub_0: "n < 2 ^ 31 \<Longrightarrow> size_t_sub p n 0 = n"
proof -
  assume a: "n < 2 ^ 31"
  have "n < 2 ^ size_t_bits p" using a pow31_le[of p] pow_bits_split[of p] by simp
  with size_t_sub_exact[of 0 n p] show ?thesis by simp
qed

lemma FirstPrime_small: "Primes_tab p ! Suc 0 < 2 ^ 31" "Primes_tab p ! Suc 0 div 100000 = 0"
  by (simp_all add: Primes_tab_def Primes_32b_def Primes_64b_def)

lemma Primes_0: "Primes p 0 = Some (Primes_tab p ! Suc 0)"
  using Primes_in_range[of 0 p] MaxLayerCount_pos[of p] by simp

lemma RESIZE_FUNC_MAP_INIT:
  "RESIZE_FUNC T (MAP_INIT T) 0 = Inr (MAP_INIT T, Primes_tab (plat T) ! Suc 0)"
proof -
  have "LayerLastIdx (MAP_INIT T) = 0" by (simp add: MAP_INIT_def)
  then show ?thesis by (simp add: RESIZE_FUNC_def Primes_0)
qed

lemma LayeredHashMap_ctor_eq:
  "LayeredHashMap_ctor T =
     Inr ((MAP_INIT T)\<lparr>Values_self := \<lparr>Value = 0, Threshold = int (Primes_tab (plat T) ! Suc 0)\<rparr>\<rparr>)"
proof -
  let ?p = "plat T" and ?P0 = "Primes_tab (plat T) ! Suc 0"
  have g: "to_uInt ?p (ThreadValuesSum (MAP_INIT T) + DTOR_ThreadValuesSum (MAP_INIT T)) = 0"
    by (simp add: MAP_INIT_def ThreadValuesSum_def GetThreadValue_def to_uInt_def)
  have m1: "to_sInt ?p (size_t_sub ?p ?P0 0) = int ?P0"
    by (simp only: size_t_sub_0[OF FirstPrime_small(1)] to_sInt_small[OF FirstPrime_small(1)])
  have m2: "to_sInt ?p (?P0 div 100000) = 0"
    unfolding FirstPrime_small(2) by (simp add: to_sInt_def)
  have m3: "to_uInt ?p (int ?P0) = ?P0"
    using FirstPrime_small(1)[of ?p] by (simp add: to_uInt_small)
  have vals: "Values_self (MAP_INIT T) = \<lparr>Value = 0, Threshold = 0\<rparr>"
    "ThreadValues_rest (MAP_INIT T) = []"
    by (simp_all add: MAP_INIT_def)
  show ?thesis
    unfolding LayeredHashMap_ctor_def UpdateManagerInternal_def g RESIZE_FUNC_MAP_INIT Let_def
    by (simp add: m1 m2 m3 vals to_sInt_small[OF FirstPrime_small(1)] AdjustThreadThreshold_def)
qed

section \<open>A run that crosses the first growth\<close>

lemma slot_address_first_layer:
  assumes "h < Primes_tab p ! Suc 0"
  shows "slot_address p 0 h = Some (0, h)"
proof -
  have z: "0 < MaxLayerCount p" by (rule MaxLayerCount_pos)
  have R: "RawHash_of p 0 h = Some h"
    by (rule RawHash_of_small[OF le_refl z assms])
  from GetLayer_spec[OF z assms] have G: "GetLayer p h = Some 0" by auto
  have "GetSlot p h 0 = Some h"
    using GetSlot_spec[of 0 p h] z assms by simp
  then show ?thesis using R G by (simp add: slot_address_def)
qed

lemma traits_IX86:
  "plat (size_t_traits MSVC_IX86) = MSVC_IX86"
  "Hash (size_t_traits MSVC_IX86) k = k"
  "Pred (size_t_traits MSVC_IX86) = (=)"
  "default_Slot (size_t_traits MSVC_IX86) = \<lparr>Lock = EMPTY, Main = (0, 0), Collisions = []\<rparr>"
  by (simp_all add: size_t_traits_def default_Slot_def)

lemma key_address_dense:
  assumes "LayerLastIdx s = 0" "k < 757"
  shows "key_address (size_t_traits MSVC_IX86) s k = Some (0, k)"
proof -
  have "k mod 2 ^ size_t_bits MSVC_IX86 = k" using assms(2) by (simp add: size_t_bits_def)
  moreover have "k < Primes_tab MSVC_IX86 ! Suc 0"
    using assms(2) by (simp add: Primes_tab_def Primes_32b_def)
  ultimately show ?thesis
    using slot_address_first_layer[of k MSVC_IX86] assms(1)
    by (simp add: key_address_def traits_IX86)
qed

lemma IX86_words:
  "to_uInt MSVC_IX86 757 = 757" "to_uInt MSVC_IX86 758 = 758"
  "to_uInt MSVC_IX86 0 = 0" "to_uInt MSVC_IX86 1025 = 1025"
  "to_sInt MSVC_IX86 0 = 0" "to_sInt MSVC_IX86 1025 = 1025"
  "size_t_sub MSVC_IX86 757 757 = 0" "size_t_sub MSVC_IX86 1783 758 = 1025"
  "size_t_sub MSVC_IX86 1783 757 = 1026"
  "size_t_add MSVC_IX86 0 1 = 1"
  "Primes MSVC_IX86 0 = Some 757" "Primes MSVC_IX86 1 = Some 1783"
  "size_t_add MSVC_IX86 0 (Suc 0) = Suc 0" "Primes MSVC_IX86 (Suc 0) = Some 1783"
  by (simp_all add: to_uInt_def to_sInt_def size_t_sub_def size_t_add_def size_t_bits_def
      Primes_def Primes_tab_def Primes_32b_def)


lemma UpdateManagerInternal_at_757:
  assumes "LayerLastIdx t = 0" "Values_self t = \<lparr>Value = 757, Threshold = 757\<rparr>"
    "ThreadValues_rest t = []" "DTOR_ThreadValuesSum t = 0"
  shows "UpdateManagerInternal (size_t_traits MSVC_IX86) t = Inr t"
proof -
  have g: "to_uInt (plat (size_t_traits MSVC_IX86)) (ThreadValuesSum t + DTOR_ThreadValuesSum t) = 757"
    by (simp add: ThreadValuesSum_def GetThreadValue_def assms traits_IX86 IX86_words)
  have r: "RESIZE_FUNC (size_t_traits MSVC_IX86) t 757 = Inr (t, 757)"
    by (simp add: RESIZE_FUNC_def assms traits_IX86 IX86_words)
  have e: "t\<lparr>Values_self := \<lparr>Value = 757, Threshold = 757\<rparr>, ThreadValues_rest := []\<rparr> = t"
    using assms(2,3) by (cases t) simp
  show ?thesis
    unfolding UpdateManagerInternal_def g r Let_def
    by (simp add: assms traits_IX86 IX86_words AdjustThreadThreshold_def e)
qed


lemma UpdateManagerInternal_at_758:
  assumes "LayerLastIdx t = 0" "Values_self t = \<lparr>Value = 758, Threshold = 757\<rparr>"
    "ThreadValues_rest t = []" "DTOR_ThreadValuesSum t = 0" "length (Slots t) = 23"
  shows "UpdateManagerInternal (size_t_traits MSVC_IX86) t =
           Inr (t\<lparr>LayerLastIdx := 1,
                   Slots := (Slots t)[1 := resize (default_Slot (size_t_traits MSVC_IX86)) (Slots t ! 1) 1026],
                   Values_self := \<lparr>Value = 758, Threshold = 1783\<rparr>\<rparr>)"
proof -
  let ?T = "size_t_traits MSVC_IX86"
  define t1 where "t1 = t\<lparr>LayerLastIdx := 1,
                   Slots := (Slots t)[1 := resize (default_Slot ?T) (Slots t ! 1) 1026]\<rparr>"
  have g: "to_uInt (plat ?T) (ThreadValuesSum t + DTOR_ThreadValuesSum t) = 758"
    by (simp add: ThreadValuesSum_def GetThreadValue_def assms traits_IX86(1) IX86_words)
  have al: "AllocateLayer ?T t = Inr t1"
    by (simp add: AllocateLayer_def assms traits_IX86(1) IX86_words t1_def Let_def)
  have r: "RESIZE_FUNC ?T t 758 = Inr (t1, 1783)"
    by (simp add: RESIZE_FUNC_def assms traits_IX86(1) IX86_words al) (simp add: t1_def IX86_words)
  have v: "Values_self t1 = \<lparr>Value = 758, Threshold = 757\<rparr>" "ThreadValues_rest t1 = []"
    by (simp_all add: t1_def assms)
  have e: "t1\<lparr>Values_self := \<lparr>Value = 758, Threshold = 1783\<rparr>, ThreadValues_rest := []\<rparr> =
           t1\<lparr>Values_self := \<lparr>Value = 758, Threshold = 1783\<rparr>\<rparr>"
    using v(2) by (cases t1) simp
  show ?thesis
    unfolding UpdateManagerInternal_def g r Let_def
    by (simp add: v traits_IX86(1) IX86_words AdjustThreadThreshold_def e) (simp add: t1_def)
qed

lemma dense_step:
  assumes d: "dense_upto n s" and n757: "n < 757"
  shows "\<exists>s'. Write (size_t_traits MSVC_IX86) s n n = Inr s' \<and> dense_upto (Suc n) s'"
proof -
  let ?T = "size_t_traits MSVC_IX86"
  have L: "LayerLastIdx s = 0" and len: "length (Slots s) = 23" "length (Slots s ! 0) = 757"
    and l1: "Slots s ! 1 = []"
    and sl: "\<And>i. i < 757 \<Longrightarrow> Slots s ! 0 ! i =
         (if i < n then \<lparr>Lock = POPULATED, Main = (i, i), Collisions = []\<rparr>
          else default_Slot ?T)"
    and vs: "Values_self s = \<lparr>Value = int n, Threshold = 757\<rparr>"
    and rest: "ThreadValues_rest s = []" and dt: "DTOR_ThreadValuesSum s = 0"
    using d by (simp_all add: dense_upto_def)
  have a: "key_address ?T s n = Some (0, n)" by (rule key_address_dense[OF L n757])
  have ib: "in_bounds s 0 n" using len n757 by (simp add: in_bounds_def)
  have x: "get_Slot s 0 n = default_Slot ?T"
    using sl[OF n757] by (simp add: get_Slot_def)
  have E: "Lock (get_Slot s 0 n) = EMPTY" and C: "Collisions (get_Slot s 0 n) = []"
    by (simp_all add: x default_Slot_def)
  have xinv: "slot_lock_inv (get_Slot s 0 n)" by (simp add: x slot_lock_inv_default)
  have vs1: "Values_self (set_Slot s 0 j y) = Values_self s" for j y
    by (simp add: set_Slot_def)
  have W: "Write ?T s n n =
           Inr ((set_Slot s 0 n ((get_Slot s 0 n)\<lparr>Main := (n, n), Lock := POPULATED\<rparr>))
                  \<lparr>Values_self := (Values_self s)\<lparr>Value := Value (Values_self s) + 1\<rparr>\<rparr>)"
  proof (cases "n < 756")
    case True
    then have q: "\<not> Threshold (Values_self s) \<le>
             (if is_msvc (plat ?T) then Value (Values_self s) + 1 else Value (Values_self s))"
      by (simp add: vs traits_IX86)
    show ?thesis by (rule Write_empty_quiet[OF a ib E C q])
  next
    case False
    then have n756: "n = 756" using n757 by simp
    define y where "y = (get_Slot s 0 n)\<lparr>Lock := EMPTY OR WRITER_BIT_MASK, Main := (n, n)\<rparr>"
    define t where "t = (set_Slot s 0 n y)\<lparr>Values_self :=
                          (Values_self (set_Slot s 0 n y))\<lparr>Value := Value (Values_self (set_Slot s 0 n y)) + 1\<rparr>\<rparr>"
    have u: "Threshold (Values_self (set_Slot s 0 n y)) \<le>
             (if is_msvc (plat ?T) then Value (Values_self (set_Slot s 0 n y)) + 1
              else Value (Values_self (set_Slot s 0 n y)))"
      by (simp add: vs1 vs traits_IX86 n756)
    have t_eq: "t = (set_Slot s 0 n y)\<lparr>Values_self := \<lparr>Value = 757, Threshold = 757\<rparr>\<rparr>"
      by (simp add: t_def vs1 vs n756)
    have "UpdateManagerInternal ?T t = Inr t"
      by (rule UpdateManagerInternal_at_757) (simp_all add: t_eq set_Slot_def L rest dt)
    then have inc: "Increment ?T (set_Slot s 0 n y) = Inr t"
      using Increment_update[OF u] by (simp add: t_def)
    show ?thesis
      unfolding Write_cases[OF a ib xinv] Let_def
      by (simp add: E y_def[symmetric] inc)
         (simp add: t_eq vs n756 release_Values_self_POP[OF ib[unfolded n756]] y_def)
  qed
  define s' where "s' = (set_Slot s 0 n ((get_Slot s 0 n)\<lparr>Main := (n, n), Lock := POPULATED\<rparr>))
                  \<lparr>Values_self := (Values_self s)\<lparr>Value := Value (Values_self s) + 1\<rparr>\<rparr>"
  have "dense_upto (Suc n) s'"
    unfolding dense_upto_def
  proof (intro conjI allI impI)
    show "LayerLastIdx s' = 0" by (simp add: s'_def set_Slot_def L)
    show "length (Slots s') = 23" by (simp add: s'_def set_Slot_def len)
    show "length (Slots s' ! 0) = 757" using len by (simp add: s'_def set_Slot_def)
    show "Slots s' ! 1 = []" using len l1 by (simp add: s'_def set_Slot_def)
    show "Values_self s' = \<lparr>Value = int (Suc n), Threshold = 757\<rparr>"
      by (simp add: s'_def vs)
    show "ThreadValues_rest s' = []" by (simp add: s'_def set_Slot_def rest)
    show "DTOR_ThreadValuesSum s' = 0" by (simp add: s'_def set_Slot_def dt)
  next
    fix i :: nat assume i: "i < 757"
    show "Slots s' ! 0 ! i =
         (if i < Suc n then \<lparr>Lock = POPULATED, Main = (i, i), Collisions = []\<rparr>
          else default_Slot ?T)"
    proof (cases "i = n")
      case True
      then show ?thesis
        using len n757 by (simp add: s'_def set_Slot_def x default_Slot_def)
    next
      case False
      then show ?thesis
        using len i sl[OF i] by (auto simp: s'_def set_Slot_def)
    qed
  qed
  then show ?thesis using W by (auto simp: s'_def)
qed

lemma Write_all_append:
  "Write_all T s (xs @ ys) =
     (case Write_all T s xs of Inl e \<Rightarrow> Inl e | Inr s' \<Rightarrow> Write_all T s' ys)"
  by (induction xs arbitrary: s) (auto split: sum.splits)

lemma dense_ctor:
  "\<exists>s0. LayeredHashMap_ctor (size_t_traits MSVC_IX86) = Inr s0 \<and> dense_upto 0 s0"
proof -
  let ?T = "size_t_traits MSVC_IX86"
  have P: "Primes MSVC_IX86 0 = Some 757" by (simp add: IX86_words)
  have "dense_upto 0 ((MAP_INIT ?T)\<lparr>Values_self := \<lparr>Value = 0, Threshold = int (Primes_tab (plat ?T) ! Suc 0)\<rparr>\<rparr>)"
    by (simp add: dense_upto_def MAP_INIT_def traits_IX86(1) P resize_def MaxLayerCount_def
        Primes_tab_def Primes_32b_def)
  then show ?thesis using LayeredHashMap_ctor_eq[of ?T] by blast
qed

lemma dense_all:
  assumes "dense_upto 0 s0" "n \<le> 757"
  shows "\<exists>s. Write_all (size_t_traits MSVC_IX86) s0 (map (\<lambda>i. (i, i)) [0..<n]) = Inr s \<and>
             dense_upto n s"
  using assms(2)
proof (induction n)
  case 0
  then show ?case using assms(1) by simp
next
  case (Suc n)
  then obtain s where s: "Write_all (size_t_traits MSVC_IX86) s0 (map (\<lambda>i. (i, i)) [0..<n]) = Inr s"
    "dense_upto n s" by auto
  from dense_step[OF s(2)] Suc.prems obtain s' where
    s': "Write (size_t_traits MSVC_IX86) s n n = Inr s'" "dense_upto (Suc n) s'" by auto
  show ?case
    by (rule exI[of _ s']) (simp add: Write_all_append s s')
qed

lemma key_address_1000:
  "LayerLastIdx s = 0 \<Longrightarrow> key_address (size_t_traits MSVC_IX86) s 1000 = Some (0, 243)"
  "LayerLastIdx s = 1 \<Longrightarrow> key_address (size_t_traits MSVC_IX86) s 1000 = Some (1, 243)"
  by (simp_all add: addr_eval)

lemma grow_step:
  assumes d: "dense_upto 757 s"
  shows "\<exists>s'. Write (size_t_traits MSVC_IX86) s 1000 7 = Inr s' \<and> grown_once s'"
proof -
  let ?T = "size_t_traits MSVC_IX86"
  have L: "LayerLastIdx s = 0" and len: "length (Slots s) = 23" "length (Slots s ! 0) = 757"
    and l1: "Slots s ! 1 = []"
    and sl: "\<And>i. i < 757 \<Longrightarrow> Slots s ! 0 ! i =
               \<lparr>Lock = POPULATED, Main = (i, i), Collisions = []\<rparr>"
    and vs: "Values_self s = \<lparr>Value = 757, Threshold = 757\<rparr>"
    and rest: "ThreadValues_rest s = []" and dt: "DTOR_ThreadValuesSum s = 0"
    using d by (simp_all add: dense_upto_def)
  have a: "key_address ?T s 1000 = Some (0, 243)" by (rule key_address_1000(1)[OF L])
  have ib: "in_bounds s 0 243" using len by (simp add: in_bounds_def)
  have x: "get_Slot s 0 243 = \<lparr>Lock = POPULATED, Main = (243, 243), Collisions = []\<rparr>"
    using sl[of 243] by (simp add: get_Slot_def)
  have xinv: "slot_lock_inv (get_Slot s 0 243)" by (simp add: x slot_lock_inv_def)
  define y where "y = \<lparr>Lock = POPULATED OR WRITER_BIT_MASK, Main = (243::nat, 243::nat),
                        Collisions = [(1000::nat, 7::nat)]\<rparr>"
  define t where "t = (set_Slot s 0 243 y)\<lparr>Values_self := \<lparr>Value = 758, Threshold = 757\<rparr>\<rparr>"
  define t2 where "t2 = t\<lparr>LayerLastIdx := 1,
                   Slots := (Slots t)[1 := resize (default_Slot ?T) (Slots t ! 1) 1026],
                   Values_self := \<lparr>Value = 758, Threshold = 1783\<rparr>\<rparr>"
  have vs1: "Values_self (set_Slot s 0 243 y) = Values_self s"
    by (simp add: set_Slot_def)
  have u: "Threshold (Values_self (set_Slot s 0 243 y)) \<le>
             (if is_msvc (plat ?T) then Value (Values_self (set_Slot s 0 243 y)) + 1
              else Value (Values_self (set_Slot s 0 243 y)))"
    by (simp add: vs1 vs traits_IX86)
  have "UpdateManagerInternal ?T t = Inr t2"
    unfolding t2_def
    by (rule UpdateManagerInternal_at_758) (simp_all add: t_def set_Slot_def L rest dt len)
  then have inc: "Increment ?T (set_Slot s 0 243 y) = Inr t2"
    using Increment_update[OF u] by (simp add: t_def vs1 vs)
  have W: "Write ?T s 1000 7 = Inr (release t2 0 243 POPULATED)"
    unfolding Write_cases[OF a ib xinv] Let_def
    by (simp add: x lock_words traits_IX86 y_def[symmetric] inc)
  have "grown_once (release t2 0 243 POPULATED)"
    using len l1
    by (simp add: grown_once_def release_eq set_Slot_def get_Slot_def t2_def t_def y_def
        resize_def rest dt)
  then show ?thesis using W by blast
qed

lemma Read_after_growth:
  assumes "grown_once s"
  shows "Read (size_t_traits MSVC_IX86) s 1000 = Inl out_of_range"
proof -
  let ?T = "size_t_traits MSVC_IX86"
  have L: "LayerLastIdx s = 1" and len: "length (Slots s) = 23"
    and l1: "Slots s ! 1 = replicate 1026 (default_Slot ?T)"
    using assms by (simp_all add: grown_once_def)
  have a: "key_address ?T s 1000 = Some (1, 243)" by (rule key_address_1000(2)[OF L])
  have ib: "in_bounds s 1 243" using len l1 by (simp add: in_bounds_def)
  have x: "get_Slot s 1 243 = default_Slot ?T" "get_Slot s (Suc 0) 243 = default_Slot ?T"
    unfolding get_Slot_def l1 One_nat_def[symmetric] by simp_all
  have xinv: "slot_lock_inv (get_Slot s 1 243)" unfolding x by (rule slot_lock_inv_default)
  show ?thesis
    unfolding Read_cases(1)[OF a ib xinv] Let_def x by (simp add: default_Slot_def)
qed

lemma stored_after_growth:
  assumes "grown_once s"
  shows "(1000, 7) \<in> set (stored_pairs s)"
proof -
  have len: "length (Slots s) = 23" "length (Slots s ! 0) = 757"
    and x: "Slots s ! 0 ! 243 = \<lparr>Lock = POPULATED, Main = (243, 243), Collisions = [(1000, 7)]\<rparr>"
    using assms by (simp_all add: grown_once_def)
  have 1: "Slots s ! 0 \<in> set (Slots s)" using len by (intro nth_mem) simp
  have 2: "Slots s ! 0 ! 243 \<in> set (Slots s ! 0)" using len by (intro nth_mem) simp
  have 3: "(1000, 7) \<in> set (slot_pairs (Slots s ! 0 ! 243))"
    by (simp add: x slot_pairs_def POPULATED_def VALUE_BITS_MASK_def EMPTY_def)
  show ?thesis unfolding stored_pairs_def using 1 2 3 by auto
qed

lemma GetSize_after_growth:
  assumes "grown_once s"
  shows "GetSize (size_t_traits MSVC_IX86) s = 758"
  using assms
  by (simp add: grown_once_def GetSize_def GetGlobalValue_def ThreadValuesSum_def
      GetThreadValue_def traits_IX86 to_uInt_def size_t_bits_def)

lemma Write_again_after_growth:
  assumes "grown_once s"
  shows "\<exists>s'. Write (size_t_traits MSVC_IX86) s 1000 8 = Inr s' \<and>
              GetSize (size_t_traits MSVC_IX86) s' = 759"
proof -
  let ?T = "size_t_traits MSVC_IX86"
  have L: "LayerLastIdx s = 1" and len: "length (Slots s) = 23"
    and l1: "Slots s ! 1 = replicate 1026 (default_Slot ?T)"
    and vs: "Values_self s = \<lparr>Value = 758, Threshold = 1783\<rparr>"
    and rest: "ThreadValues_rest s = []" and dt: "DTOR_ThreadValuesSum s = 0"
    using assms by (simp_all add: grown_once_def)
  have a: "key_address ?T s 1000 = Some (1, 243)" by (rule key_address_1000(2)[OF L])
  have ib: "in_bounds s 1 243" using len l1 by (simp add: in_bounds_def)
  have x: "get_Slot s 1 243 = default_Slot ?T" "get_Slot s (Suc 0) 243 = default_Slot ?T"
    unfolding get_Slot_def l1 One_nat_def[symmetric] by simp_all
  have E: "Lock (get_Slot s 1 243) = EMPTY" and C: "Collisions (get_Slot s 1 243) = []"
    unfolding x by (simp_all add: default_Slot_def)
  have q: "\<not> Threshold (Values_self s) \<le>
             (if is_msvc (plat ?T) then Value (Values_self s) + 1 else Value (Values_self s))"
    by (simp add: vs traits_IX86)
  note W = Write_empty_quiet[OF a ib E C q, of 8]
  show ?thesis
    unfolding W
    by (simp add: GetSize_def GetGlobalValue_def ThreadValuesSum_def GetThreadValue_def
        traits_IX86(1) to_uInt_def size_t_bits_def vs rest dt set_Slot_def)
qed

lemma run_to_growth:
  "\<exists>s0 s. LayeredHashMap_ctor (size_t_traits MSVC_IX86) = Inr s0 \<and>
          Write_all (size_t_traits MSVC_IX86) s0 (seq_writes 757 @ [(1000, 7)]) = Inr s \<and>
          grown_once s"
proof -
  from dense_ctor obtain s0 where s0: "LayeredHashMap_ctor (size_t_traits MSVC_IX86) = Inr s0"
    "dense_upto 0 s0" by blast
  from dense_all[OF s0(2), of 757] obtain s1 where
    s1: "Write_all (size_t_traits MSVC_IX86) s0 (seq_writes 757) = Inr s1" "dense_upto 757 s1"
    by (auto simp: seq_writes_def)
  from grow_step[OF s1(2)] obtain s where
    s: "Write (size_t_traits MSVC_IX86) s1 1000 7 = Inr s" "grown_once s" by blast
  have "Write_all (size_t_traits MSVC_IX86) s0 (seq_writes 757 @ [(1000, 7)]) = Inr s"
    by (simp add: Write_all_append s1 s)
  then show ?thesis using s0(1) s(2) by blast
qed

lemma seq_writes_distinct: "distinct (map fst (seq_writes 757 @ [(1000, 7)]))"
proof -
  have "map fst (seq_writes 757) = [0..<757]"
    by (simp add: seq_writes_def comp_def)
  then show ?thesis by simp
qed

text \<open>
  Claim C1, at the failing input. A map of \<open>size_t\<close> keys built by MSVC for x86 is
  constructed and the distinct keys 0, \<dots>, 756 and 1000 are written, in this order.
  The write of key 1000 is the 758th: it puts the pair into the collision list of slot
  243 of layer 0, the counter crosses its threshold, and the growth callback allocates
  layer 1 without moving anything. \<open>Read(1000)\<close> then derives slot 243 of layer 1,
  finds it empty and throws \<open>std::out_of_range\<close>.
\<close>
theorem Read_misses_key_written_before_growth:
  "distinct (map fst (seq_writes 757 @ [(1000, 7)])) \<and>
   (case LayeredHashMap_ctor (size_t_traits MSVC_IX86) of
      Inl e \<Rightarrow> False
    | Inr s0 \<Rightarrow>
        (case Write_all (size_t_traits MSVC_IX86) s0 (seq_writes 757 @ [(1000, 7)]) of
           Inl e \<Rightarrow> False
         | Inr s \<Rightarrow> Read (size_t_traits MSVC_IX86) s 1000 = Inl out_of_range))"
proof -
  from run_to_growth obtain s0 s where
    r: "LayeredHashMap_ctor (size_t_traits MSVC_IX86) = Inr s0"
       "Write_all (size_t_traits MSVC_IX86) s0 (seq_writes 757 @ [(1000, 7)]) = Inr s"
       "grown_once s" by blast
  show ?thesis
    using seq_writes_distinct Read_after_growth[OF r(3)] by (simp add: r(1,2))
qed

text \<open>
  Claim C4, at the failing input. After the same 758 writes \<open>GetSize\<close> is 758. Key
  1000 is then written again: the write derives the new, empty slot of the key, stores
  a second pair for it and increments the counter, so \<open>GetSize\<close> is 759 although the
  write was over a key that had been inserted and never deleted.
\<close>
theorem GetSize_counts_rewritten_key_twice:
  "(case LayeredHashMap_ctor (size_t_traits MSVC_IX86) of
      Inl e \<Rightarrow> False
    | Inr s0 \<Rightarrow>
        (case Write_all (size_t_traits MSVC_IX86) s0 (seq_writes 757 @ [(1000, 7)]) of
           Inl e \<Rightarrow> False
         | Inr s \<Rightarrow>
             GetSize (size_t_traits MSVC_IX86) s = 758 \<and>
             (case Write (size_t_traits MSVC_IX86) s 1000 8 of
                Inl e \<Rightarrow> False
              | Inr s' \<Rightarrow> GetSize (size_t_traits MSVC_IX86) s' = 759)))"
proof -
  from run_to_growth obtain s0 s where
    r: "LayeredHashMap_ctor (size_t_traits MSVC_IX86) = Inr s0"
       "Write_all (size_t_traits MSVC_IX86) s0 (seq_writes 757 @ [(1000, 7)]) = Inr s"
       "grown_once s" by blast
  from Write_again_after_growth[OF r(3)] obtain s' where
    w: "Write (size_t_traits MSVC_IX86) s 1000 8 = Inr s'"
       "GetSize (size_t_traits MSVC_IX86) s' = 759" by blast
  show ?thesis
    using GetSize_after_growth[OF r(3)] by (simp add: r(1,2) w)
qed

text \<open>
  Claim C5, at the failing input. After the same 758 writes the pair \<open>(1000, 7)\<close> is
  stored in the map, its key is equal to 1000 under the predicate, and \<open>Read(1000)\<close>
  throws \<open>std::out_of_range\<close>.
\<close>
theorem Read_NotFound_with_stored_pair:
  "(case LayeredHashMap_ctor (size_t_traits MSVC_IX86) of
      Inl e \<Rightarrow> False
    | Inr s0 \<Rightarrow>
        (case Write_all (size_t_traits MSVC_IX86) s0 (seq_writes 757 @ [(1000, 7)]) of
           Inl e \<Rightarrow> False
         | Inr s \<Rightarrow>
             (1000, 7) \<in> set (stored_pairs s) \<and>
             Pred (size_t_traits MSVC_IX86) (fst (1000, 7)) 1000 \<and>
             Read (size_t_traits MSVC_IX86) s 1000 = Inl out_of_range))"
proof -
  from run_to_growth obtain s0 s where
    r: "LayeredHashMap_ctor (size_t_traits MSVC_IX86) = Inr s0"
       "Write_all (size_t_traits MSVC_IX86) s0 (seq_writes 757 @ [(1000, 7)]) = Inr s"
       "grown_once s" by blast
  show ?thesis
    using stored_after_growth[OF r(3)] Read_after_growth[OF r(3)]
    by (simp add: r(1,2) traits_IX86)
qed

section \<open>Allocation invariant, read-after-write and counter effect of single operations\<close>

lemma layers_allocated_Slots_cong:
  assumes "map length (Slots s') = map length (Slots s)" "LayerLastIdx s' = LayerLastIdx s"
  shows "layers_allocated T s' = layers_allocated T s"
proof -
  have l: "length (Slots s') = length (Slots s)"
    using assms(1) by (metis length_map)
  have "length (Slots s' ! i) = length (Slots s ! i)" if "i < length (Slots s)" for i
    using assms(1) that l by (metis nth_map)
  then show ?thesis
    unfolding layers_allocated_def assms(2) l
    by (metis le_less_trans)
qed

lemma map_update_same: "(map f xs)[i := f (xs ! i)] = map f xs"
proof (cases "i < length xs")
  case True
  then have "f (xs ! i) = map f xs ! i" by simp
  then show ?thesis by (simp only: list_update_id)
next
  case False
  then have "length (map f xs) \<le> i" by simp
  then show ?thesis by (rule list_update_beyond)
qed

lemma layers_allocated_set_Slot:
  "layers_allocated T (set_Slot s li si y) = layers_allocated T s"
  by (rule layers_allocated_Slots_cong) (simp_all add: set_Slot_def map_update map_update_same)

lemma layers_allocated_release:
  "layers_allocated T (release s li si v) = layers_allocated T s"
  unfolding release_eq by (rule layers_allocated_set_Slot)

lemma layers_allocated_AllocateLayer:
  assumes "layers_allocated T s" "AllocateLayer T s = Inr s'"
  shows "layers_allocated T s'"
proof -
  have L: "LayerLastIdx s < MaxLayerCount (plat T)"
    using assms(1) by (simp add: layers_allocated_def)
  note A = AllocateLayer_Inr[OF assms(2) L]
  show ?thesis
    unfolding layers_allocated_def
  proof (intro conjI allI impI)
    show "length (Slots s') = MaxLayerCount (plat T)"
      using A assms(1) by (simp add: layers_allocated_def)
    show "LayerLastIdx s' < MaxLayerCount (plat T)" using A by simp
  next
    fix i assume i: "i \<le> LayerLastIdx s'"
    show "length (Slots s' ! i) = Primes_tab (plat T) ! Suc i - Primes_tab (plat T) ! i"
    proof (cases "i = Suc (LayerLastIdx s)")
      case True
      then show ?thesis using A by (simp add: length_resize)
    next
      case False
      then have "i \<le> LayerLastIdx s" using i A by simp
      then show ?thesis using False A assms(1) by (simp add: layers_allocated_def)
    qed
  qed
qed

lemma layers_allocated_Values:
  "layers_allocated T (s\<lparr>Values_self := a, ThreadValues_rest := r\<rparr>) = layers_allocated T s"
  "layers_allocated T (s\<lparr>Values_self := a\<rparr>) = layers_allocated T s"
  by (simp_all add: layers_allocated_def)

lemma layers_allocated_UpdateManagerInternal:
  assumes "layers_allocated T s" "UpdateManagerInternal T s = Inr s'"
  shows "layers_allocated T s'"
proof -
  from assms(2) obtain s1 g where
    R: "RESIZE_FUNC T s (to_uInt (plat T) (ThreadValuesSum s + DTOR_ThreadValuesSum s)) = Inr (s1, g)"
    by (auto simp: UpdateManagerInternal_def Let_def split: sum.splits)
  with assms(2) obtain a r where s': "s' = s1\<lparr>Values_self := a, ThreadValues_rest := r\<rparr>"
    by (auto simp: UpdateManagerInternal_def Let_def)
  have "s1 = s \<or> AllocateLayer T s = Inr s1"
    using R by (auto simp: RESIZE_FUNC_def split: option.splits if_splits sum.splits)
  then have "layers_allocated T s1"
    using assms(1) layers_allocated_AllocateLayer[OF assms(1)] by blast
  then show ?thesis by (simp add: s' layers_allocated_Values)
qed

lemma layers_allocated_Increment:
  assumes "layers_allocated T s" "Increment T s = Inr s'"
  shows "layers_allocated T s'"
proof -
  define s0 where "s0 = s\<lparr>Values_self := (Values_self s)\<lparr>Value := Value (Values_self s) + 1\<rparr>\<rparr>"
  have a0: "layers_allocated T s0" using assms(1) by (simp add: s0_def layers_allocated_Values)
  have "s' = s0 \<or> UpdateManagerInternal T s0 = Inr s'"
    using assms(2)
    by (auto simp: Increment_def ThreadValue_Increment_def INCREMENT_def Let_def s0_def
        UpdateManager_def WaitForGlobalValue_def split: if_splits sum.splits)
  then show ?thesis
    using a0 layers_allocated_UpdateManagerInternal[OF a0] by blast
qed

lemma layers_allocated_Write:
  assumes "layers_allocated T s" "Write T s Key Val = Inr s'"
  shows "layers_allocated T s'"
proof -
  from Write_shape[OF assms(2)] obtain li si y where
    sh: "(\<exists>s2. Increment T (set_Slot s li si y) = Inr s2 \<and> s' = release s2 li si POPULATED) \<or>
            s' = release (set_Slot s li si y) li si POPULATED" by blast
  have a1: "layers_allocated T (set_Slot s li si y)"
    using assms(1) by (simp add: layers_allocated_set_Slot)
  from sh show ?thesis
    using a1 layers_allocated_Increment[OF a1]
    by (auto simp: layers_allocated_release)
qed

lemma layers_allocated_ctor:
  assumes "LayeredHashMap_ctor T = Inr s"
  shows "layers_allocated T s"
  using assms layers_allocated_MAP_INIT[of T]
  by (auto simp: LayeredHashMap_ctor_eq layers_allocated_Values)

lemma layers_allocated_Delete:
  assumes "layers_allocated T s" "Delete T s Key = Inr (d, s')"
  shows "layers_allocated T s'"
proof -
  from Delete_shape[OF assms(2)] obtain li si where
    a: "key_address T s Key = Some (li, si)" and ib: "in_bounds s li si" by blast
  obtain Held St where wl: "write_lock (Lock (get_Slot s li si)) = Some (Held, St)"
    using assms(2) a ib by (cases "write_lock (Lock (get_Slot s li si))") (auto simp: Delete_def Let_def)
  have "\<exists>y v tv. s' = release (set_Slot s li si y) li si v \<or>
                  s' = release ((set_Slot s li si y)\<lparr>Values_self := tv\<rparr>) li si v"
    using assms(2) unfolding Delete_def a Let_def
    apply (simp add: ib wl Decrement_eq split: if_splits prod.splits)
         apply blast+
    done
  then show ?thesis
    using assms(1)
    by (auto simp: layers_allocated_release layers_allocated_set_Slot layers_allocated_Values)
qed

lemma find_if_le: "find_if P xs \<le> length xs"
  by (induction xs) auto

lemma find_if_found: "find_if P xs \<noteq> length xs \<Longrightarrow> P (xs ! find_if P xs)"
  by (induction xs) (auto split: if_splits)

lemma find_if_append_new:
  "find_if P xs = length xs \<Longrightarrow> P z \<Longrightarrow> find_if P (xs @ [z]) = length xs"
  by (induction xs) (auto split: if_splits)

lemma find_if_update_found:
  assumes "find_if P xs \<noteq> length xs" "P z"
  shows "find_if P (xs[find_if P xs := z]) = find_if P xs"
  using assms by (induction xs) (auto split: if_splits)

lemma get_Slot_release:
  "in_bounds t li si \<Longrightarrow>
     get_Slot (release t li si v) li si = (get_Slot t li si)\<lparr>Lock := v\<rparr>"
  by (simp add: release_eq get_Slot_set_Slot)

lemma Write_then_Read:
  assumes inv: "map_lock_inv s" and W: "Write T s Key Val = Inr s'"
    and same: "LayerLastIdx s' = LayerLastIdx s" and refl: "Pred T Key Key"
  shows "Read T s' Key = Inr Val"
proof -
  from Write_shape[OF W] obtain li si where
    a: "key_address T s Key = Some (li, si)" and ib: "in_bounds s li si" by blast
  define x where "x = get_Slot s li si"
  define P where "P = (\<lambda>KeyVal :: 'a \<times> 'b. Pred T (fst KeyVal) Key)"
  have xinv: "slot_lock_inv (get_Slot s li si)" by (rule map_lock_inv_slot[OF inv ib])
  have a': "key_address T s' Key = Some (li, si)"
    using a by (simp add: key_address_def same)
  from Write_populates[OF W a inv] have ib': "in_bounds s' li si"
    and pop: "Lock (get_Slot s' li si) = POPULATED" by blast+
  have xinv': "slot_lock_inv (get_Slot s' li si)"
    by (rule map_lock_inv_slot[OF Write_inv[OF inv W] ib'])
  note ka = key_address_Some[OF a]
  have after_inc: "get_Slot s' li si = y\<lparr>Lock := POPULATED\<rparr>"
    if inc: "Increment T (set_Slot s li si y) = Inr s2" and s': "s' = release s2 li si POPULATED"
    for y s2
  proof -
    have L1: "LayerLastIdx (set_Slot s li si y) = LayerLastIdx s" by (simp add: set_Slot_def)
    have a1: "slots_lock_inv_except (set_Slot s li si y) li si" and a2: "in_bounds (set_Slot s li si y) li si"
      and a5: "get_Slot (set_Slot s li si y) li si = y"
      using set_Slot_locked[OF inv ib, of y] by blast+
    have a3: "li \<le> LayerLastIdx (set_Slot s li si y)"
      and a4: "LayerLastIdx (set_Slot s li si y) < MaxLayerCount (plat T)"
      using ka unfolding L1 by blast+
    from Increment_keeps_locked[OF a1 a2 a3 a4 inc]
    have "in_bounds s2 li si" "get_Slot s2 li si = y" using a5 by simp_all
    then show ?thesis by (simp add: s' get_Slot_release)
  qed
  have R: "Read T s' Key =
    (if Pred T (fst (Main (get_Slot s' li si))) Key then Inr (snd (Main (get_Slot s' li si)))
     else if find_if P (Collisions (get_Slot s' li si)) = length (Collisions (get_Slot s' li si))
       then Inl out_of_range
       else Inr (snd (Collisions (get_Slot s' li si) ! find_if P (Collisions (get_Slot s' li si)))))"
    unfolding Read_cases(1)[OF a' ib' xinv'] Let_def P_def
    by (simp add: pop lock_words)
  note Wc = W[unfolded Write_cases[OF a ib xinv] Let_def, folded x_def P_def]
  show ?thesis
  proof (cases "Lock x = EMPTY")
    case True
    with Wc obtain s2 where
      "Increment T (set_Slot s li si (x\<lparr>Lock := EMPTY OR WRITER_BIT_MASK, Main := (Key, Val)\<rparr>)) = Inr s2"
      "s' = release s2 li si POPULATED"
      by (auto split: sum.splits)
    from after_inc[OF this] show ?thesis unfolding R by (simp add: refl)
  next
    case nE: False
    show ?thesis
    proof (cases "Pred T (fst (Main x)) Key")
      case True
      with Wc nE have "s' = set_Slot s li si (x\<lparr>Main := (fst (Main x), Val)\<rparr>)" by simp
      then have "get_Slot s' li si = x\<lparr>Main := (fst (Main x), Val)\<rparr>"
        by (simp add: get_Slot_set_Slot[OF ib])
      then show ?thesis unfolding R using True by simp
    next
      case nM: False
      show ?thesis
      proof (cases "find_if P (Collisions x) = length (Collisions x)")
        case True
        with Wc nE nM obtain s2 where
          "Increment T (set_Slot s li si
             (x\<lparr>Lock := POPULATED OR WRITER_BIT_MASK, Collisions := Collisions x @ [(Key, Val)]\<rparr>)) = Inr s2"
          "s' = release s2 li si POPULATED"
          by (auto split: sum.splits)
        from after_inc[OF this] have g: "get_Slot s' li si =
            x\<lparr>Lock := POPULATED, Collisions := Collisions x @ [(Key, Val)]\<rparr>" by simp
        have f: "find_if P (Collisions x @ [(Key, Val)]) = length (Collisions x)"
          by (rule find_if_append_new[OF True]) (simp add: P_def refl)
        show ?thesis unfolding R g using nM by (simp add: f)
      next
        case nF: False
        define i where "i = find_if P (Collisions x)"
        have i: "i < length (Collisions x)"
          using nF find_if_le[of P "Collisions x"] by (simp add: i_def)
        have Pi: "P (fst (Collisions x ! i), Val)"
          using find_if_found[OF nF] by (simp add: P_def i_def)
        from Wc nE nM nF have "s' = set_Slot s li si
               (x\<lparr>Collisions := (Collisions x)[i := (fst (Collisions x ! i), Val)]\<rparr>)"
          by (simp add: i_def)
        then have g: "get_Slot s' li si =
               x\<lparr>Collisions := (Collisions x)[i := (fst (Collisions x ! i), Val)]\<rparr>"
          by (simp add: get_Slot_set_Slot[OF ib])
        have f: "find_if P ((Collisions x)[i := (fst (Collisions x ! i), Val)]) = i"
          unfolding i_def by (rule find_if_update_found[OF nF Pi[unfolded i_def]])
        show ?thesis unfolding R g using nM i by (simp add: f)
      qed
    qed
  qed
qed

lemma ThreadValuesSum_cong:
  assumes "Value (Values_self s') = Value (Values_self s) + d"
    and "map Value (ThreadValues_rest s') = map Value (ThreadValues_rest s)"
  shows "ThreadValuesSum s' = ThreadValuesSum s + d"
proof -
  have "map GetThreadValue (ThreadValues_rest s') = map GetThreadValue (ThreadValues_rest s)"
    using assms(2) by (simp add: GetThreadValue_def[abs_def])
  then show ?thesis using assms(1) by (simp add: ThreadValuesSum_def GetThreadValue_def)
qed

lemma ThreadValuesSum_set_Slot: "ThreadValuesSum (set_Slot s li si y) = ThreadValuesSum s"
  by (simp add: ThreadValuesSum_def set_Slot_def)

lemma ThreadValuesSum_release: "ThreadValuesSum (release s li si v) = ThreadValuesSum s"
  by (simp add: release_eq ThreadValuesSum_set_Slot)

lemma DTOR_release: "DTOR_ThreadValuesSum (release s li si v) = DTOR_ThreadValuesSum s"
  by (simp add: release_eq set_Slot_def)

lemma Write_counts:
  assumes inv: "map_lock_inv s" and W: "Write T s Key Val = Inr s'"
    and a: "key_address T s Key = Some (li, si)"
  shows "ThreadValuesSum s' + DTOR_ThreadValuesSum s' =
           ThreadValuesSum s + DTOR_ThreadValuesSum s +
           (let x = get_Slot s li si
            in if Lock x \<noteq> EMPTY \<and>
                  (Pred T (fst (Main x)) Key \<or>
                   find_if (\<lambda>KeyVal. Pred T (fst KeyVal) Key) (Collisions x) \<noteq> length (Collisions x))
               then 0 else 1)"
proof -
  from Write_shape[OF W] a have ib: "in_bounds s li si" by auto
  have xinv: "slot_lock_inv (get_Slot s li si)" by (rule map_lock_inv_slot[OF inv ib])
  note ka = key_address_Some[OF a]
  have inc: "ThreadValuesSum (release s2 li si POPULATED) + DTOR_ThreadValuesSum (release s2 li si POPULATED) =
             ThreadValuesSum s + DTOR_ThreadValuesSum s + 1"
    if "Increment T (set_Slot s li si y) = Inr s2" for y s2
  proof -
    have L1: "LayerLastIdx (set_Slot s li si y) < MaxLayerCount (plat T)"
      using ka by (simp add: set_Slot_def)
    from Increment_frame[OF that L1]
    have 1: "DTOR_ThreadValuesSum s2 = DTOR_ThreadValuesSum s"
      and 2: "Value (Values_self s2) = Value (Values_self s) + 1"
      and 3: "map Value (ThreadValues_rest s2) = map Value (ThreadValues_rest s)"
      by (simp_all add: set_Slot_def)
    have "ThreadValuesSum s2 = ThreadValuesSum s + 1"
      by (rule ThreadValuesSum_cong[OF 2 3])
    then show ?thesis
      using 1 by (simp only: ThreadValuesSum_release DTOR_release)
  qed
  have dt: "DTOR_ThreadValuesSum (set_Slot s li si y) = DTOR_ThreadValuesSum s" for y
    by (simp add: set_Slot_def)
  from W show ?thesis
    unfolding Write_cases[OF a ib xinv] Let_def
    by (auto simp: inc ThreadValuesSum_set_Slot dt split: if_splits sum.splits)
qed

lemma Delete_counts:
  assumes inv: "map_lock_inv s" and D: "Delete T s Key = Inr (d, s')"
  shows "ThreadValuesSum s' + DTOR_ThreadValuesSum s' =
           ThreadValuesSum s + DTOR_ThreadValuesSum s - (if d then 1 else 0) \<and>
         (\<not> d \<longrightarrow> s' = s)"
proof -
  from Delete_shape[OF D] obtain li si where
    a: "key_address T s Key = Some (li, si)" and ib: "in_bounds s li si" by blast
  have xinv: "slot_lock_inv (get_Slot s li si)" by (rule map_lock_inv_slot[OF inv ib])
  have v: "ThreadValuesSum ((set_Slot s li si y)\<lparr>Values_self :=
              (Values_self s)\<lparr>Value := Value (Values_self s) - 1\<rparr>\<rparr>) = ThreadValuesSum s - 1" for y
    by (simp add: ThreadValuesSum_def set_Slot_def GetThreadValue_def)
  have dt: "DTOR_ThreadValuesSum (set_Slot s li si y) = DTOR_ThreadValuesSum s" for y
    by (simp add: set_Slot_def)
  from D show ?thesis
    unfolding Delete_cases[OF a ib xinv] Let_def
    by (auto simp: v dt split: if_splits)
qed

section \<open>The slot invariant with the pairs held\<close>

lemma slot_inv_cases:
  assumes "slot_inv x ps"
  obtains "Lock x = EMPTY" "ps = []" "Collisions x = []"
        | "Lock x = POPULATED" "ps = Main x # Collisions x"
proof (cases "ps = []")
  case True
  then show ?thesis using assms that(1) by (auto simp: slot_inv_def)
next
  case False
  then have "ps = hd ps # tl ps" by simp
  then show ?thesis using assms that(2) False by (auto simp: slot_inv_def)
qed

lemma slot_inv_lock: "slot_inv x ps \<Longrightarrow> slot_lock_inv x"
  by (auto simp: slot_inv_def slot_lock_inv_def)

lemma map_inv_lock: "map_inv s A \<Longrightarrow> map_lock_inv s"
  unfolding map_lock_inv_iff map_inv_def in_bounds_def get_Slot_def
  by (blast intro: slot_inv_lock)

lemma map_inv_slot: "map_inv s A \<Longrightarrow> in_bounds s li si \<Longrightarrow> slot_inv (get_Slot s li si) (A li si)"
  by (simp add: map_inv_def)

lemma slot_inv_default: "slot_inv (default_Slot T) []"
  using lock_words(5) by (auto simp: slot_inv_def default_Slot_def)

lemma set_Slot_slots:
  assumes "in_bounds s li si"
  shows "in_bounds (set_Slot s li si y) l i = in_bounds s l i"
    and "in_bounds s l i \<Longrightarrow>
         get_Slot (set_Slot s li si y) l i = (if l = li \<and> i = si then y else get_Slot s l i)"
  using assms
  by (auto simp: in_bounds_def get_Slot_def set_Slot_def nth_list_update)

lemma Values_self_slots:
  "in_bounds (s\<lparr>Values_self := tv\<rparr>) l i = in_bounds s l i"
  "get_Slot (s\<lparr>Values_self := tv\<rparr>) l i = get_Slot s l i"
  by (simp_all add: in_bounds_def get_Slot_def)

lemma Increment_slots:
  assumes inc: "Increment T s1 = Inr s2" and L: "LayerLastIdx s1 < MaxLayerCount (plat T)"
    and ib2: "in_bounds s2 l i"
  shows "get_Slot s2 l i = (if in_bounds s1 l i then get_Slot s1 l i else default_Slot T)"
proof -
  let ?n = "Suc (LayerLastIdx s1)"
  from Increment_frame[OF inc L]
  consider "Slots s2 = Slots s1"
    | k where "Slots s2 = (Slots s1)[?n := resize (default_Slot T) (Slots s1 ! ?n) k]"
    by blast
  then show ?thesis
  proof cases
    case 1
    then show ?thesis using ib2 by (simp add: in_bounds_def get_Slot_def)
  next
    case 2
    show ?thesis
    proof (cases "l = ?n")
      case True
      have ln: "l < length (Slots s1)" using ib2 by (simp add: in_bounds_def 2)
      have ik: "i < k" using ib2 ln True by (simp add: in_bounds_def 2 length_resize)
      show ?thesis using ln ik True
        by (simp add: in_bounds_def get_Slot_def 2 nth_resize)
    next
      case False
      then show ?thesis using ib2 by (simp add: in_bounds_def get_Slot_def 2)
    qed
  qed
qed

lemma Increment_in_bounds:
  assumes inc: "Increment T s1 = Inr s2" and L: "LayerLastIdx s1 < MaxLayerCount (plat T)"
    and ib: "in_bounds s1 li si" and le: "li \<le> LayerLastIdx s1"
  shows "in_bounds s2 li si"
proof -
  let ?n = "Suc (LayerLastIdx s1)"
  from Increment_frame[OF inc L]
  consider "Slots s2 = Slots s1"
    | k where "Slots s2 = (Slots s1)[?n := resize (default_Slot T) (Slots s1 ! ?n) k]"
    by blast
  then show ?thesis
  proof cases
    case 1
    then show ?thesis using ib by (simp add: in_bounds_def)
  next
    case 2
    have "li \<noteq> ?n" using le by simp
    then show ?thesis using ib by (simp add: in_bounds_def 2)
  qed
qed

lemma release_slots:
  assumes "in_bounds t li si"
  shows "in_bounds (release t li si v) l i = in_bounds t l i"
    and "in_bounds t l i \<Longrightarrow>
         get_Slot (release t li si v) l i =
           (if l = li \<and> i = si then (get_Slot t li si)\<lparr>Lock := v\<rparr> else get_Slot t l i)"
  unfolding release_eq using set_Slot_slots[OF assms] by simp_all

lemma Write_Increment_slots:
  assumes inc: "Increment T (set_Slot s li si y) = Inr s2"
    and ib: "in_bounds s li si" and le: "li \<le> LayerLastIdx s"
    and L: "LayerLastIdx s < MaxLayerCount (plat T)"
    and ib': "in_bounds (release s2 li si v) l i"
  shows "get_Slot (release s2 li si v) l i =
           (if l = li \<and> i = si then y\<lparr>Lock := v\<rparr>
            else if in_bounds s l i then get_Slot s l i else default_Slot T)"
    and "in_bounds (release s2 li si v) li si"
proof -
  let ?s1 = "set_Slot s li si y"
  have L1: "LayerLastIdx ?s1 < MaxLayerCount (plat T)" using L by (simp add: set_Slot_def)
  have le1: "li \<le> LayerLastIdx ?s1" using le by (simp add: set_Slot_def)
  have ib1: "in_bounds ?s1 li si" using set_Slot_slots(1)[OF ib] ib by simp
  have ib2: "in_bounds s2 li si" by (rule Increment_in_bounds[OF inc L1 ib1 le1])
  have ibl: "in_bounds s2 l i" using ib' release_slots(1)[OF ib2] by simp
  have g2: "get_Slot s2 l i = (if in_bounds ?s1 l i then get_Slot ?s1 l i else default_Slot T)"
    by (rule Increment_slots[OF inc L1 ibl])
  have g2': "get_Slot s2 li si = y"
    using Increment_slots[OF inc L1 ib2] ib1 set_Slot_slots(2)[OF ib ib] by simp
  show "in_bounds (release s2 li si v) li si" using release_slots(1)[OF ib2] ib2 by simp
  show "get_Slot (release s2 li si v) l i =
           (if l = li \<and> i = si then y\<lparr>Lock := v\<rparr>
            else if in_bounds s l i then get_Slot s l i else default_Slot T)"
  proof (cases "l = li \<and> i = si")
    case True
    then show ?thesis using release_slots(2)[OF ib2 ib2] g2' by simp
  next
    case False
    then have "get_Slot (release s2 li si v) l i = get_Slot s2 l i"
      using release_slots(2)[OF ib2 ibl] by auto
    also have "\<dots> = (if in_bounds s l i then get_Slot s l i else default_Slot T)"
      unfolding g2 using False set_Slot_slots(1)[OF ib] set_Slot_slots(2)[OF ib] by auto
    finally show ?thesis using False by auto
  qed
qed

lemma map_invI:
  assumes "\<And>l i. in_bounds s' l i \<Longrightarrow> slot_inv (get_Slot s' l i) (A' l i)"
  shows "map_inv s' A'"
  using assms by (simp add: map_inv_def)

lemma slot_inv_written:
  assumes "slot_inv x ps"
  shows "Lock x = EMPTY \<Longrightarrow>
           slot_inv (x\<lparr>Lock := w, Main := (Key, Val)\<rparr>\<lparr>Lock := POPULATED\<rparr>)
             (spec_Write_pairs Equal Key Val ps)"
    and "Lock x \<noteq> EMPTY \<Longrightarrow> Equal (fst (Main x)) Key \<Longrightarrow>
           slot_inv (x\<lparr>Main := (fst (Main x), Val)\<rparr>) (spec_Write_pairs Equal Key Val ps)"
    and "Lock x \<noteq> EMPTY \<Longrightarrow> \<not> Equal (fst (Main x)) Key \<Longrightarrow>
         find_if (\<lambda>KeyVal. Equal (fst KeyVal) Key) (Collisions x) = length (Collisions x) \<Longrightarrow>
           slot_inv (x\<lparr>Lock := w, Collisions := Collisions x @ [(Key, Val)]\<rparr>\<lparr>Lock := POPULATED\<rparr>)
             (spec_Write_pairs Equal Key Val ps)"
    and "Lock x \<noteq> EMPTY \<Longrightarrow> \<not> Equal (fst (Main x)) Key \<Longrightarrow>
         find_if (\<lambda>KeyVal. Equal (fst KeyVal) Key) (Collisions x) \<noteq> length (Collisions x) \<Longrightarrow>
           slot_inv (x\<lparr>Collisions := (Collisions x)
                      [find_if (\<lambda>KeyVal. Equal (fst KeyVal) Key) (Collisions x) :=
                         (fst (Collisions x ! find_if (\<lambda>KeyVal. Equal (fst KeyVal) Key) (Collisions x)), Val)]\<rparr>)
             (spec_Write_pairs Equal Key Val ps)"
proof -
  let ?P = "\<lambda>KeyVal. Equal (fst KeyVal) Key"
  note le = find_if_le[of ?P "Collisions x"]
  have E: "Lock x = EMPTY \<Longrightarrow> ps = [] \<and> Collisions x = []"
    by (rule slot_inv_cases[OF assms]) (auto simp: lock_words(5))
  have Pp: "Lock x \<noteq> EMPTY \<Longrightarrow> Lock x = POPULATED \<and> ps = Main x # Collisions x"
    by (rule slot_inv_cases[OF assms]) auto
  show "Lock x = EMPTY \<Longrightarrow>
           slot_inv (x\<lparr>Lock := w, Main := (Key, Val)\<rparr>\<lparr>Lock := POPULATED\<rparr>)
             (spec_Write_pairs Equal Key Val ps)"
    using E Pp lock_words(5)
    by (auto simp: slot_inv_def spec_Write_pairs_def Let_def)
  show "Lock x \<noteq> EMPTY \<Longrightarrow> Equal (fst (Main x)) Key \<Longrightarrow>
           slot_inv (x\<lparr>Main := (fst (Main x), Val)\<rparr>) (spec_Write_pairs Equal Key Val ps)"
    using E Pp lock_words(5)
    by (auto simp: slot_inv_def spec_Write_pairs_def Let_def)
  show "Lock x \<noteq> EMPTY \<Longrightarrow> \<not> Equal (fst (Main x)) Key \<Longrightarrow>
         find_if ?P (Collisions x) = length (Collisions x) \<Longrightarrow>
           slot_inv (x\<lparr>Lock := w, Collisions := Collisions x @ [(Key, Val)]\<rparr>\<lparr>Lock := POPULATED\<rparr>)
             (spec_Write_pairs Equal Key Val ps)"
    using E Pp lock_words(5)
    by (auto simp: slot_inv_def spec_Write_pairs_def Let_def)
  show "Lock x \<noteq> EMPTY \<Longrightarrow> \<not> Equal (fst (Main x)) Key \<Longrightarrow>
         find_if ?P (Collisions x) \<noteq> length (Collisions x) \<Longrightarrow>
           slot_inv (x\<lparr>Collisions := (Collisions x)
                      [find_if ?P (Collisions x) :=
                         (fst (Collisions x ! find_if ?P (Collisions x)), Val)]\<rparr>)
             (spec_Write_pairs Equal Key Val ps)"
    using E Pp lock_words(5) le
    by (auto simp: slot_inv_def spec_Write_pairs_def Let_def)
qed

lemma Write_map_inv:
  assumes inv: "map_inv s A" and W: "Write T s Key Val = Inr s'"
    and a: "key_address T s Key = Some (li, si)"
  shows "map_inv s' (put_pairs (held_within s A) li si (spec_Write_pairs (Pred T) Key Val (A li si)))"
proof -
  from Write_shape[OF W] a have ib: "in_bounds s li si" by auto
  define x where "x = get_Slot s li si"
  define P where "P = (\<lambda>KeyVal :: 'a \<times> 'b. Pred T (fst KeyVal) Key)"
  define A' where "A' = put_pairs (held_within s A) li si (spec_Write_pairs (Pred T) Key Val (A li si))"
  have xi: "slot_inv x (A li si)" unfolding x_def by (rule map_inv_slot[OF inv ib])
  have xl: "slot_lock_inv (get_Slot s li si)" using xi slot_inv_lock x_def by blast
  note ka = key_address_Some[OF a]
  have le: "li \<le> LayerLastIdx s" and L: "LayerLastIdx s < MaxLayerCount (plat T)"
    using ka by blast+
  have other: "slot_inv (if in_bounds s l i then get_Slot s l i else default_Slot T) (A' l i)"
    if "\<not> (l = li \<and> i = si)" for l i
    using that map_inv_slot[OF inv, of l i]
    by (auto simp: A'_def put_pairs_def held_within_def slot_inv_default)
  have A'x: "A' li si = spec_Write_pairs (Pred T) Key Val (A li si)"
    by (simp add: A'_def put_pairs_def)
  have via_inc: "map_inv s' A'"
    if inc: "Increment T (set_Slot s li si y) = Inr s2" and s': "s' = release s2 li si POPULATED"
      and y: "slot_inv (y\<lparr>Lock := POPULATED\<rparr>) (spec_Write_pairs (Pred T) Key Val (A li si))"
    for y s2
  proof (rule map_invI)
    fix l i assume b: "in_bounds s' l i"
    from Write_Increment_slots(1)[OF inc ib le L b[unfolded s']]
    show "slot_inv (get_Slot s' l i) (A' l i)"
      unfolding s' using y other[of l i] by (auto simp: A'x)
  qed
  have via_set: "map_inv s' A'"
    if s': "s' = set_Slot s li si y"
      and y: "slot_inv y (spec_Write_pairs (Pred T) Key Val (A li si))"
    for y
  proof (rule map_invI)
    fix l i assume b: "in_bounds s' l i"
    then have b0: "in_bounds s l i" unfolding s' set_Slot_slots(1)[OF ib] .
    from set_Slot_slots(2)[OF ib b0, of y]
    show "slot_inv (get_Slot s' l i) (A' l i)"
      unfolding s' using y other[of l i] b0 by (auto simp: A'x)
  qed
  note Wc = W[unfolded Write_cases[OF a ib xl] Let_def, folded x_def P_def]
  note sw = slot_inv_written[OF xi, where Key = Key and Val = Val and Equal = "Pred T", folded P_def]
  show ?thesis
    unfolding A'_def[symmetric]
  proof (cases "Lock x = EMPTY")
    case True
    with Wc obtain s2 where
      "Increment T (set_Slot s li si (x\<lparr>Lock := EMPTY OR WRITER_BIT_MASK, Main := (Key, Val)\<rparr>)) = Inr s2"
      "s' = release s2 li si POPULATED"
      by (auto split: sum.splits)
    then show "map_inv s' A'" by (rule via_inc) (rule sw(1)[OF True])
  next
    case nE: False
    show "map_inv s' A'"
    proof (cases "Pred T (fst (Main x)) Key")
      case True
      with Wc nE have "s' = set_Slot s li si (x\<lparr>Main := (fst (Main x), Val)\<rparr>)" by simp
      then show ?thesis by (rule via_set) (rule sw(2)[OF nE True])
    next
      case nM: False
      show ?thesis
      proof (cases "find_if P (Collisions x) = length (Collisions x)")
        case True
        with Wc nE nM obtain s2 where
          "Increment T (set_Slot s li si
             (x\<lparr>Lock := POPULATED OR WRITER_BIT_MASK, Collisions := Collisions x @ [(Key, Val)]\<rparr>)) = Inr s2"
          "s' = release s2 li si POPULATED"
          by (auto split: sum.splits)
        then show ?thesis by (rule via_inc) (rule sw(3)[OF nE nM True])
      next
        case nF: False
        with Wc nE nM have "s' = set_Slot s li si
               (x\<lparr>Collisions := (Collisions x)[find_if P (Collisions x) :=
                    (fst (Collisions x ! find_if P (Collisions x)), Val)]\<rparr>)"
          by simp
        then show ?thesis by (rule via_set) (rule sw(4)[OF nE nM nF])
      qed
    qed
  qed
qed

lemma slot_inv_deleted:
  assumes "slot_inv x ps"
  shows "Lock x = EMPTY \<Longrightarrow>
           slot_inv x (spec_Delete_pairs Equal Key ps) \<and>
           \<not> find_if (\<lambda>KeyVal. Equal (fst KeyVal) Key) ps < length ps"
    and "Lock x \<noteq> EMPTY \<Longrightarrow> Equal (fst (Main x)) Key \<Longrightarrow> Collisions x \<noteq> [] \<Longrightarrow>
           slot_inv (x\<lparr>Main := last (Collisions x), Collisions := butlast (Collisions x)\<rparr>)
             (spec_Delete_pairs Equal Key ps) \<and>
           find_if (\<lambda>KeyVal. Equal (fst KeyVal) Key) ps < length ps"
    and "Lock x \<noteq> EMPTY \<Longrightarrow> Equal (fst (Main x)) Key \<Longrightarrow> Collisions x = [] \<Longrightarrow>
           slot_inv (x\<lparr>Lock := EMPTY\<rparr>) (spec_Delete_pairs Equal Key ps) \<and>
           find_if (\<lambda>KeyVal. Equal (fst KeyVal) Key) ps < length ps"
    and "Lock x \<noteq> EMPTY \<Longrightarrow> \<not> Equal (fst (Main x)) Key \<Longrightarrow>
         find_if (\<lambda>KeyVal. Equal (fst KeyVal) Key) (Collisions x) \<noteq> length (Collisions x) \<Longrightarrow>
           slot_inv (x\<lparr>Collisions := butlast ((Collisions x)
                      [find_if (\<lambda>KeyVal. Equal (fst KeyVal) Key) (Collisions x) := last (Collisions x)])\<rparr>)
             (spec_Delete_pairs Equal Key ps) \<and>
           find_if (\<lambda>KeyVal. Equal (fst KeyVal) Key) ps < length ps"
    and "Lock x \<noteq> EMPTY \<Longrightarrow> \<not> Equal (fst (Main x)) Key \<Longrightarrow>
         find_if (\<lambda>KeyVal. Equal (fst KeyVal) Key) (Collisions x) = length (Collisions x) \<Longrightarrow>
           slot_inv x (spec_Delete_pairs Equal Key ps) \<and>
           \<not> find_if (\<lambda>KeyVal. Equal (fst KeyVal) Key) ps < length ps"
proof -
  let ?P = "\<lambda>KeyVal. Equal (fst KeyVal) Key"
  note le = find_if_le[of ?P "Collisions x"]
  have E: "Lock x = EMPTY \<Longrightarrow> ps = [] \<and> Collisions x = []"
    by (rule slot_inv_cases[OF assms]) (auto simp: lock_words(5))
  have Pp: "Lock x \<noteq> EMPTY \<Longrightarrow> Lock x = POPULATED \<and> ps = Main x # Collisions x"
    by (rule slot_inv_cases[OF assms]) auto
  show "Lock x = EMPTY \<Longrightarrow>
           slot_inv x (spec_Delete_pairs Equal Key ps) \<and> \<not> find_if ?P ps < length ps"
    using E assms by (simp add: spec_Delete_pairs_def)
  show "Lock x \<noteq> EMPTY \<Longrightarrow> Equal (fst (Main x)) Key \<Longrightarrow> Collisions x \<noteq> [] \<Longrightarrow>
           slot_inv (x\<lparr>Main := last (Collisions x), Collisions := butlast (Collisions x)\<rparr>)
             (spec_Delete_pairs Equal Key ps) \<and> find_if ?P ps < length ps"
    using Pp lock_words(5)
    by (auto simp: slot_inv_def spec_Delete_pairs_def Let_def)
  show "Lock x \<noteq> EMPTY \<Longrightarrow> Equal (fst (Main x)) Key \<Longrightarrow> Collisions x = [] \<Longrightarrow>
           slot_inv (x\<lparr>Lock := EMPTY\<rparr>) (spec_Delete_pairs Equal Key ps) \<and>
           find_if ?P ps < length ps"
    using Pp lock_words(5)
    by (auto simp: slot_inv_def spec_Delete_pairs_def Let_def)
  show "Lock x \<noteq> EMPTY \<Longrightarrow> \<not> Equal (fst (Main x)) Key \<Longrightarrow>
         find_if ?P (Collisions x) \<noteq> length (Collisions x) \<Longrightarrow>
           slot_inv (x\<lparr>Collisions := butlast ((Collisions x)
                      [find_if ?P (Collisions x) := last (Collisions x)])\<rparr>)
             (spec_Delete_pairs Equal Key ps) \<and> find_if ?P ps < length ps"
  proof -
    assume nE: "Lock x \<noteq> EMPTY" and nM: "\<not> Equal (fst (Main x)) Key"
      and f: "find_if ?P (Collisions x) \<noteq> length (Collisions x)"
    have ne: "Collisions x \<noteq> []" using f by auto
    have lt: "find_if ?P (Collisions x) < length (Collisions x)" using f le by simp
    show ?thesis
      using Pp[OF nE] nM ne lt lock_words(5)
      by (simp add: slot_inv_def spec_Delete_pairs_def Let_def)
  qed
  show "Lock x \<noteq> EMPTY \<Longrightarrow> \<not> Equal (fst (Main x)) Key \<Longrightarrow>
         find_if ?P (Collisions x) = length (Collisions x) \<Longrightarrow>
           slot_inv x (spec_Delete_pairs Equal Key ps) \<and> \<not> find_if ?P ps < length ps"
    using Pp assms by (simp add: spec_Delete_pairs_def Let_def)
qed

lemma Delete_map_inv:
  assumes inv: "map_inv s A" and D: "Delete T s Key = Inr (d, s')"
    and a: "key_address T s Key = Some (li, si)"
  shows "map_inv s' (put_pairs A li si (spec_Delete_pairs (Pred T) Key (A li si))) \<and>
         (d \<longleftrightarrow> find_if (\<lambda>KeyVal. Pred T (fst KeyVal) Key) (A li si) < length (A li si))"
proof -
  from Delete_shape[OF D] a have ib: "in_bounds s li si" by auto
  define x where "x = get_Slot s li si"
  define P where "P = (\<lambda>KeyVal :: 'a \<times> 'b. Pred T (fst KeyVal) Key)"
  define A' where "A' = put_pairs A li si (spec_Delete_pairs (Pred T) Key (A li si))"
  define dec where "dec = (Values_self s)\<lparr>Value := Value (Values_self s) - 1\<rparr>"
  have xi: "slot_inv x (A li si)" unfolding x_def by (rule map_inv_slot[OF inv ib])
  have xl: "slot_lock_inv (get_Slot s li si)" using xi slot_inv_lock x_def by blast
  have other: "in_bounds s l i \<Longrightarrow> slot_inv (get_Slot s l i) (A' l i)"
    if "\<not> (l = li \<and> i = si)" for l i
    using that map_inv_slot[OF inv, of l i] by (auto simp: A'_def put_pairs_def)
  have A'x: "A' li si = spec_Delete_pairs (Pred T) Key (A li si)"
    by (simp add: A'_def put_pairs_def)
  have same: "map_inv s A'" if y: "slot_inv x (spec_Delete_pairs (Pred T) Key (A li si))"
  proof (rule map_invI)
    fix l i assume b: "in_bounds s l i"
    show "slot_inv (get_Slot s l i) (A' l i)"
      using y other[of l i] b by (cases "l = li \<and> i = si") (auto simp: A'x x_def)
  qed
  have via_set: "map_inv ((set_Slot s li si y)\<lparr>Values_self := dec\<rparr>) A'"
    if y: "slot_inv y (spec_Delete_pairs (Pred T) Key (A li si))" for y
  proof (rule map_invI)
    fix l i assume b: "in_bounds ((set_Slot s li si y)\<lparr>Values_self := dec\<rparr>) l i"
    then have b0: "in_bounds s l i" unfolding Values_self_slots set_Slot_slots(1)[OF ib] .
    from set_Slot_slots(2)[OF ib b0, of y]
    show "slot_inv (get_Slot ((set_Slot s li si y)\<lparr>Values_self := dec\<rparr>) l i) (A' l i)"
      unfolding Values_self_slots using y other[of l i] b0 by (auto simp: A'x)
  qed
  note Dc = D[unfolded Delete_cases[OF a ib xl] Let_def, folded x_def P_def dec_def]
  note sd = slot_inv_deleted[OF xi, where Key = Key and Equal = "Pred T", folded P_def]
  show ?thesis
    unfolding A'_def[symmetric] P_def[symmetric]
  proof (cases "Lock x = EMPTY")
    case True
    with Dc have "d = False" "s' = s" by simp_all
    then show "map_inv s' A' \<and> (d \<longleftrightarrow> find_if P (A li si) < length (A li si))"
      using sd(1)[OF True] same by simp
  next
    case nE: False
    show "map_inv s' A' \<and> (d \<longleftrightarrow> find_if P (A li si) < length (A li si))"
    proof (cases "Pred T (fst (Main x)) Key")
      case M: True
      show ?thesis
      proof (cases "Collisions x = []")
        case True
        with Dc nE M have "d = True" "s' = (set_Slot s li si (x\<lparr>Lock := EMPTY\<rparr>))\<lparr>Values_self := dec\<rparr>"
          by simp_all
        then show ?thesis using sd(3)[OF nE M True] via_set by simp
      next
        case False
        with Dc nE M have "d = True"
          "s' = (set_Slot s li si
                  (x\<lparr>Main := last (Collisions x), Collisions := butlast (Collisions x)\<rparr>))
                  \<lparr>Values_self := dec\<rparr>"
          by simp_all
        then show ?thesis using sd(2)[OF nE M False] via_set by simp
      qed
    next
      case nM: False
      show ?thesis
      proof (cases "find_if P (Collisions x) = length (Collisions x)")
        case True
        with Dc nE nM have "d = False" "s' = s" by simp_all
        then show ?thesis using sd(5)[OF nE nM True] same by simp
      next
        case nF: False
        with Dc nE nM have "d = True"
          "s' = (set_Slot s li si
                 (x\<lparr>Collisions := butlast ((Collisions x)[find_if P (Collisions x) := last (Collisions x)])\<rparr>))
                 \<lparr>Values_self := dec\<rparr>"
          by simp_all
        then show ?thesis using sd(4)[OF nE nM nF] via_set by simp
      qed
    qed
  qed
qed

lemma Read_map_eq:
  assumes "map_lock_inv s" shows "Read_map T s Key = s"
proof (cases "key_address T s Key")
  case None
  then show ?thesis by (simp add: Read_map_def)
next
  case (Some a)
  obtain li si where a: "a = (li, si)" by (cases a)
  show ?thesis
  proof (cases "in_bounds s li si")
    case True
    from Read_cases(2)[OF Some[unfolded a] True map_lock_inv_slot[OF assms True]]
    show ?thesis .
  next
    case False
    then show ?thesis using Some a by (simp add: Read_map_def)
  qed
qed

lemma Read_held:
  assumes inv: "map_inv s A" and a: "key_address T s Key = Some (li, si)"
    and ib: "in_bounds s li si"
  shows "Read T s Key =
           (let ps = A li si; i = find_if (\<lambda>KeyVal. Pred T (fst KeyVal) Key) ps
            in if i < length ps then Inr (snd (ps ! i)) else Inl out_of_range)"
proof -
  define x where "x = get_Slot s li si"
  have xi: "slot_inv x (A li si)" unfolding x_def by (rule map_inv_slot[OF inv ib])
  have xl: "slot_lock_inv (get_Slot s li si)" using xi slot_inv_lock x_def by blast
  note le = find_if_le[of "\<lambda>KeyVal. Pred T (fst KeyVal) Key" "Collisions x"]
  show ?thesis
    unfolding Read_cases(1)[OF a ib xl] Let_def x_def[symmetric]
    by (rule slot_inv_cases[OF xi]) (use le lock_words(5) in auto)
qed

lemma held_slot_pairs:
  assumes "map_inv s A" "in_bounds s li si"
  shows "A li si = slot_pairs (get_Slot s li si)"
  by (rule slot_inv_cases[OF map_inv_slot[OF assms]])
     (simp_all add: slot_pairs_def EMPTY_def POPULATED_def VALUE_BITS_MASK_def)

lemma map_inv_ctor:
  assumes "LayeredHashMap_ctor T = Inr s"
  shows "map_inv s (\<lambda>l i. [])"
proof -
  have s: "s = (MAP_INIT T)\<lparr>Values_self := \<lparr>Value = 0, Threshold = int (Primes_tab (plat T) ! Suc 0)\<rparr>\<rparr>"
    using assms unfolding LayeredHashMap_ctor_eq by simp
  have "get_Slot (MAP_INIT T) l i = default_Slot T" if "in_bounds (MAP_INIT T) l i" for l i
  proof -
    from that have l: "l < MaxLayerCount (plat T)" by (simp add: in_bounds_def MAP_INIT_def)
    show ?thesis
      using that l
      by (cases "l = 0") (auto simp: in_bounds_def get_Slot_def MAP_INIT_def resize_def)
  qed
  then show ?thesis
    unfolding s by (auto intro!: map_invI simp: Values_self_slots slot_inv_default)
qed

lemma Delete_slot_cases:
  assumes inv: "map_lock_inv s" and a: "key_address T s Key = Some (li, si)"
    and ib: "in_bounds s li si" and P: "Lock (get_Slot s li si) = POPULATED"
  shows "let x = get_Slot s li si;
            CollisionIt = find_if (\<lambda>KeyVal. Pred T (fst KeyVal) Key) (Collisions x)
        in (Pred T (fst (Main x)) Key \<and> Collisions x = [] \<longrightarrow>
                   (\<exists>s'. Delete T s Key = Inr (True, s') \<and>
                         get_Slot s' li si = x\<lparr>Lock := EMPTY\<rparr>)) \<and>
                (Pred T (fst (Main x)) Key \<and> Collisions x \<noteq> [] \<longrightarrow>
                   (\<exists>s'. Delete T s Key = Inr (True, s') \<and>
                         get_Slot s' li si =
                           x\<lparr>Lock := POPULATED, Main := last (Collisions x),
                              Collisions := butlast (Collisions x)\<rparr>)) \<and>
                (\<not> Pred T (fst (Main x)) Key \<and> CollisionIt < length (Collisions x) \<longrightarrow>
                   (\<exists>s'. Delete T s Key = Inr (True, s') \<and>
                         get_Slot s' li si =
                           x\<lparr>Lock := POPULATED,
                              Collisions := butlast ((Collisions x)[CollisionIt := last (Collisions x)])\<rparr>))"
proof -
  note D = Delete_cases[OF a ib map_lock_inv_slot[OF inv ib]]
  have g: "get_Slot ((set_Slot s li si y)\<lparr>Values_self := tv\<rparr>) li si = y" for y tv
    by (simp add: get_Slot_Values_self get_Slot_set_Slot[OF ib])
  obtain lk mn cs where xeq: "get_Slot s li si = \<lparr>Lock = lk, Main = mn, Collisions = cs\<rparr>"
    by (cases "get_Slot s li si")
  show ?thesis
    unfolding D Let_def using P
    by (simp add: lock_words g)
qed

lemma Write_stores:
  assumes inv: "map_inv s A" and W: "Write T s Key Val = Inr s'"
    and a: "key_address T s Key = Some (li, si)"
  shows "in_bounds s' li si \<and> Lock (get_Slot s' li si) = POPULATED \<and>
         (Lock (get_Slot s li si) = EMPTY \<longrightarrow>
            Main (get_Slot s' li si) = (Key, Val) \<and> Collisions (get_Slot s' li si) = [])"
proof -
  from Write_shape[OF W] a have ib: "in_bounds s li si" by auto
  from Write_populates[OF W a map_inv_lock[OF inv]]
  have ib': "in_bounds s' li si" and pop: "Lock (get_Slot s' li si) = POPULATED" by blast+
  have s': "slot_inv (get_Slot s' li si) (spec_Write_pairs (Pred T) Key Val (A li si))"
    using map_inv_slot[OF Write_map_inv[OF inv W a] ib'] by (simp add: put_pairs_def)
  have "Main (get_Slot s' li si) = (Key, Val) \<and> Collisions (get_Slot s' li si) = []"
    if E: "Lock (get_Slot s li si) = EMPTY"
  proof -
    have "A li si = []"
      by (rule slot_inv_cases[OF map_inv_slot[OF inv ib]]) (use E lock_words(5) in auto)
    then show ?thesis using s' by (simp add: spec_Write_pairs_def slot_inv_def)
  qed
  then show ?thesis using ib' pop by blast
qed

lemma slot_inv_Cons:
  "slot_inv x (p # ps) \<longleftrightarrow> x = \<lparr>Lock = POPULATED, Main = p, Collisions = ps\<rparr>"
  using lock_words(5) by (cases x) (auto simp: slot_inv_def)

lemma slot_inv_Nil: "slot_inv x [] \<longleftrightarrow> Lock x = EMPTY \<and> Collisions x = []"
  using lock_words(5) by (auto simp: slot_inv_def)

lemma Write_quiet:
  assumes inv: "map_lock_inv s" and a: "key_address T s Key = Some (li, si)"
    and ib: "in_bounds s li si"
    and q: "Value (Values_self s) + 1 < Threshold (Values_self s)"
  shows "\<exists>s'. Write T s Key Val = Inr s' \<and> LayerLastIdx s' = LayerLastIdx s \<and>
              Threshold (Values_self s') = Threshold (Values_self s) \<and>
              Value (Values_self s') \<le> Value (Values_self s) + 1"
proof -
  have xl: "slot_lock_inv (get_Slot s li si)" by (rule map_lock_inv_slot[OF inv ib])
  have vs: "Values_self (set_Slot s li si y) = Values_self s" for y
    by (simp add: set_Slot_def)
  have q': "\<not> Threshold (Values_self (set_Slot s li si y)) \<le>
             (if is_msvc (plat T) then Value (Values_self (set_Slot s li si y)) + 1
              else Value (Values_self (set_Slot s li si y)))" for y
    using q by (auto simp: vs)
  have f: "LayerLastIdx (set_Slot s li si y) = LayerLastIdx s" for y
    by (simp add: set_Slot_def)
  have r: "LayerLastIdx (release t li si v) = LayerLastIdx t"
    "Values_self (release t li si v) = Values_self t" for t v
    by (simp_all add: release_eq set_Slot_def)
  show ?thesis
    unfolding Write_cases[OF a ib xl] Let_def
    by (simp add: Increment_quiet[OF q'] vs f r)
qed

lemma Delete_returns:
  assumes inv: "map_lock_inv s" and a: "key_address T s Key = Some (li, si)"
    and ib: "in_bounds s li si"
  shows "\<exists>d s'. Delete T s Key = Inr (d, s') \<and> LayerLastIdx s' = LayerLastIdx s \<and>
                in_bounds s' li si"
proof -
  have b: "in_bounds ((set_Slot s li si y)\<lparr>Values_self := tv\<rparr>) li si" for y tv
    using ib by (simp add: Values_self_slots set_Slot_slots(1)[OF ib])
  have xl: "slot_lock_inv (get_Slot s li si)" by (rule map_lock_inv_slot[OF inv ib])
  have f: "LayerLastIdx (set_Slot s li si y) = LayerLastIdx s" for y
    by (simp add: set_Slot_def)
  show ?thesis
    unfolding Delete_cases[OF a ib xl] Let_def by (auto simp: f b ib)
qed

lemma key_address_243:
  assumes "LayerLastIdx s = 0"
  shows "key_address (size_t_traits MSVC_IX86) s 243 = Some (0, 243)"
    and "key_address (size_t_traits MSVC_IX86) s 1000 = Some (0, 243)"
    and "key_address (size_t_traits MSVC_IX86) s 1267 = Some (0, 243)"
  using assms by (simp_all add: addr_eval)

text \<open>
  Claim C6. Every \<open>Write\<close>, \<open>Delete\<close> and \<open>Read\<close> that returns preserves the slot
  invariant in every slot of the map: the lock word is \<open>EMPTY\<close> or \<open>POPULATED\<close> with no
  writer or reader left, the occupancy bit is set if and only if the slot holds a pair,
  \<open>Main\<close> is then the first pair held and \<open>Collisions\<close> are the others, and the
  collision list of a slot that holds nothing is empty. The pairs held follow the
  operations: after \<open>Write\<close> the addressed slot holds the pairs it held with the value
  of the first pair of equal key replaced, or with the written pair appended when there
  was none, and the slots of a layer that the call allocated hold nothing; after
  \<open>Delete\<close> the addressed slot holds the pairs it held with the last one moved into the
  position of the first pair of equal key, and the call returns true exactly when there
  was such a pair; \<open>Read\<close> leaves the map as it was. In particular \<open>Write\<close> leaves the
  addressed slot \<open>POPULATED\<close>, and into an \<open>EMPTY\<close> slot it stores the written pair in
  \<open>Main\<close>. \<open>Delete\<close> of the main pair of a slot without collisions releases the lock
  with \<open>EMPTY\<close>; \<open>Delete\<close> of the main pair of a slot with collisions moves the last
  collision into \<open>Main\<close>, and \<open>Delete\<close> of a collision moves the last collision into
  its place, both releasing with \<open>POPULATED\<close>.
\<close>
theorem slot_invariant_preserved:
  assumes "map_inv s A"
  shows "(\<forall>s' li si. key_address T s Key = Some (li, si) \<and> Write T s Key Val = Inr s' \<longrightarrow>
            map_inv s' (put_pairs (held_within s A) li si
                          (spec_Write_pairs (Pred T) Key Val (A li si))) \<and>
            in_bounds s' li si \<and> Lock (get_Slot s' li si) = POPULATED \<and>
            (Lock (get_Slot s li si) = EMPTY \<longrightarrow>
               Main (get_Slot s' li si) = (Key, Val) \<and> Collisions (get_Slot s' li si) = [])) \<and>
         (\<forall>d s' li si. key_address T s Key = Some (li, si) \<and> Delete T s Key = Inr (d, s') \<longrightarrow>
            map_inv s' (put_pairs A li si (spec_Delete_pairs (Pred T) Key (A li si))) \<and>
            (d \<longleftrightarrow> find_if (\<lambda>KeyVal. Pred T (fst KeyVal) Key) (A li si) < length (A li si))) \<and>
         Read_map T s Key = s \<and> map_inv (Read_map T s Key) A \<and>
         (\<forall>li si. key_address T s Key = Some (li, si) \<and> in_bounds s li si \<and>
            Lock (get_Slot s li si) = POPULATED \<longrightarrow>
            (let x = get_Slot s li si;
                 CollisionIt = find_if (\<lambda>KeyVal. Pred T (fst KeyVal) Key) (Collisions x)
             in (Pred T (fst (Main x)) Key \<and> Collisions x = [] \<longrightarrow>
                   (\<exists>s'. Delete T s Key = Inr (True, s') \<and>
                         get_Slot s' li si = x\<lparr>Lock := EMPTY\<rparr>)) \<and>
                (Pred T (fst (Main x)) Key \<and> Collisions x \<noteq> [] \<longrightarrow>
                   (\<exists>s'. Delete T s Key = Inr (True, s') \<and>
                         get_Slot s' li si =
                           x\<lparr>Lock := POPULATED, Main := last (Collisions x),
                              Collisions := butlast (Collisions x)\<rparr>)) \<and>
                (\<not> Pred T (fst (Main x)) Key \<and> CollisionIt < length (Collisions x) \<longrightarrow>
                   (\<exists>s'. Delete T s Key = Inr (True, s') \<and>
                         get_Slot s' li si =
                           x\<lparr>Lock := POPULATED,
                              Collisions := butlast ((Collisions x)[CollisionIt := last (Collisions x)])\<rparr>))))"
proof (intro conjI allI impI)
  fix s' li si assume h: "key_address T s Key = Some (li, si) \<and> Write T s Key Val = Inr s'"
  then have a: "key_address T s Key = Some (li, si)" and W: "Write T s Key Val = Inr s'" by blast+
  show "map_inv s' (put_pairs (held_within s A) li si (spec_Write_pairs (Pred T) Key Val (A li si)))"
    by (rule Write_map_inv[OF assms W a])
  from Write_stores[OF assms W a]
  show "in_bounds s' li si" "Lock (get_Slot s' li si) = POPULATED" by blast+
  assume "Lock (get_Slot s li si) = EMPTY"
  with Write_stores[OF assms W a]
  show "Main (get_Slot s' li si) = (Key, Val)" "Collisions (get_Slot s' li si) = []" by blast+
next
  fix d s' li si assume h: "key_address T s Key = Some (li, si) \<and> Delete T s Key = Inr (d, s')"
  then have a: "key_address T s Key = Some (li, si)" and D: "Delete T s Key = Inr (d, s')" by blast+
  from Delete_map_inv[OF assms D a]
  show "map_inv s' (put_pairs A li si (spec_Delete_pairs (Pred T) Key (A li si)))"
    "d \<longleftrightarrow> find_if (\<lambda>KeyVal. Pred T (fst KeyVal) Key) (A li si) < length (A li si)"
    by blast+
next
  show r: "Read_map T s Key = s" by (rule Read_map_eq[OF map_inv_lock[OF assms]])
  show "map_inv (Read_map T s Key) A" unfolding r by (rule assms)
next
  fix li si
  assume h: "key_address T s Key = Some (li, si) \<and> in_bounds s li si \<and>
            Lock (get_Slot s li si) = POPULATED"
  then have a: "key_address T s Key = Some (li, si)" and ib: "in_bounds s li si"
    and P: "Lock (get_Slot s li si) = POPULATED" by blast+
  show "let x = get_Slot s li si;
            CollisionIt = find_if (\<lambda>KeyVal. Pred T (fst KeyVal) Key) (Collisions x)
        in (Pred T (fst (Main x)) Key \<and> Collisions x = [] \<longrightarrow>
                   (\<exists>s'. Delete T s Key = Inr (True, s') \<and>
                         get_Slot s' li si = x\<lparr>Lock := EMPTY\<rparr>)) \<and>
                (Pred T (fst (Main x)) Key \<and> Collisions x \<noteq> [] \<longrightarrow>
                   (\<exists>s'. Delete T s Key = Inr (True, s') \<and>
                         get_Slot s' li si =
                           x\<lparr>Lock := POPULATED, Main := last (Collisions x),
                              Collisions := butlast (Collisions x)\<rparr>)) \<and>
                (\<not> Pred T (fst (Main x)) Key \<and> CollisionIt < length (Collisions x) \<longrightarrow>
                   (\<exists>s'. Delete T s Key = Inr (True, s') \<and>
                         get_Slot s' li si =
                           x\<lparr>Lock := POPULATED,
                              Collisions := butlast ((Collisions x)[CollisionIt := last (Collisions x)])\<rparr>))"
    by (rule Delete_slot_cases[OF map_inv_lock[OF assms] a ib P])
qed

text \<open>
  A run of the map built by MSVC for x86 through one slot with several occupants: the
  keys 243, 1000 and 1267 all address slot 243 of layer 0. They are written in this
  order, then 1000 (a collision), 243 (the main pair) and 1267 (the last occupant) are
  deleted.
\<close>

theorem slot_invariant_preserved_witness:
  "(case LayeredHashMap_ctor (size_t_traits MSVC_IX86) of
      Inl e \<Rightarrow> False
    | Inr s0 \<Rightarrow>
        map_inv s0 (\<lambda>l i. []) \<and>
        (case Write_all (size_t_traits MSVC_IX86) s0 [(243, 10), (1000, 20), (1267, 30)] of
           Inl e \<Rightarrow> False
         | Inr s3 \<Rightarrow>
             get_Slot s3 0 243 =
               \<lparr>Lock = POPULATED, Main = (243, 10), Collisions = [(1000, 20), (1267, 30)]\<rparr> \<and>
             Read_map (size_t_traits MSVC_IX86) s3 1000 = s3 \<and>
             (case Delete (size_t_traits MSVC_IX86) s3 1000 of
                Inl e \<Rightarrow> False
              | Inr (d4, s4) \<Rightarrow>
                  d4 \<and>
                  get_Slot s4 0 243 =
                    \<lparr>Lock = POPULATED, Main = (243, 10), Collisions = [(1267, 30)]\<rparr> \<and>
                  (case Delete (size_t_traits MSVC_IX86) s4 243 of
                     Inl e \<Rightarrow> False
                   | Inr (d5, s5) \<Rightarrow>
                       d5 \<and>
                       get_Slot s5 0 243 =
                         \<lparr>Lock = POPULATED, Main = (1267, 30), Collisions = []\<rparr> \<and>
                       (case Delete (size_t_traits MSVC_IX86) s5 1267 of
                          Inl e \<Rightarrow> False
                        | Inr (d6, s6) \<Rightarrow>
                            d6 \<and> Lock (get_Slot s6 0 243) = EMPTY \<and>
                            map_inv s6 (\<lambda>l i. []))))))"
proof -
  let ?T = "size_t_traits MSVC_IX86"
  define A0 :: "nat \<Rightarrow> nat \<Rightarrow> (nat \<times> nat) list" where "A0 = (\<lambda>l i. [])"
  from dense_ctor obtain s0 where c: "LayeredHashMap_ctor ?T = Inr s0" and d0: "dense_upto 0 s0"
    by blast
  have L0: "LayerLastIdx s0 = 0" and ib0: "in_bounds s0 0 243"
    and v0: "Value (Values_self s0) = 0" "Threshold (Values_self s0) = 757"
    using d0 by (simp_all add: dense_upto_def in_bounds_def)
  have m0: "map_inv s0 A0" unfolding A0_def by (rule map_inv_ctor[OF c])

  (* Write(243, 10) into the empty slot *)
  note a0 = key_address_243(1)[OF L0]
  from Write_quiet[OF map_inv_lock[OF m0] a0 ib0, of 10] v0
  obtain s1 where w1: "Write ?T s0 243 10 = Inr s1" and L1: "LayerLastIdx s1 = 0"
    and v1: "Threshold (Values_self s1) = 757" "Value (Values_self s1) \<le> 1"
    by (auto simp: L0)
  define A1 where "A1 = put_pairs (held_within s0 A0) 0 243 (spec_Write_pairs (Pred ?T) 243 10 (A0 0 243))"
  from slot_invariant_preserved[OF m0, of ?T 243 10] a0 w1
  have m1: "map_inv s1 A1" and ib1: "in_bounds s1 0 243" unfolding A1_def by blast+
  have x1: "A1 0 243 = [(243, 10)]"
    by (simp add: A1_def A0_def put_pairs_def spec_Write_pairs_def)
  have o1: "\<not> (l = 0 \<and> i = 243) \<Longrightarrow> A1 l i = []" for l i
    by (auto simp: A1_def A0_def put_pairs_def held_within_def)

  (* Write(1000, 20): a collision *)
  note a1 = key_address_243(2)[OF L1]
  from Write_quiet[OF map_inv_lock[OF m1] a1 ib1, of 20] v1
  obtain s2 where w2: "Write ?T s1 1000 20 = Inr s2" and L2: "LayerLastIdx s2 = 0"
    and v2: "Threshold (Values_self s2) = 757" "Value (Values_self s2) \<le> 2"
    by (auto simp: L1)
  define A2 where "A2 = put_pairs (held_within s1 A1) 0 243 (spec_Write_pairs (Pred ?T) 1000 20 (A1 0 243))"
  from slot_invariant_preserved[OF m1, of ?T 1000 20] a1 w2
  have m2: "map_inv s2 A2" and ib2: "in_bounds s2 0 243" unfolding A2_def by blast+
  have x2: "A2 0 243 = [(243, 10), (1000, 20)]"
    by (simp add: A2_def x1 put_pairs_def spec_Write_pairs_def traits_IX86(3))
  have o2: "\<not> (l = 0 \<and> i = 243) \<Longrightarrow> A2 l i = []" for l i
    using o1[of l i] by (auto simp: A2_def put_pairs_def held_within_def)

  (* Write(1267, 30): a second collision *)
  note a2 = key_address_243(3)[OF L2]
  from Write_quiet[OF map_inv_lock[OF m2] a2 ib2, of 30] v2
  obtain s3 where w3: "Write ?T s2 1267 30 = Inr s3" and L3: "LayerLastIdx s3 = 0"
    by (auto simp: L2)
  define A3 where "A3 = put_pairs (held_within s2 A2) 0 243 (spec_Write_pairs (Pred ?T) 1267 30 (A2 0 243))"
  from slot_invariant_preserved[OF m2, of ?T 1267 30] a2 w3
  have m3: "map_inv s3 A3" and ib3: "in_bounds s3 0 243" unfolding A3_def by blast+
  have x3: "A3 0 243 = [(243, 10), (1000, 20), (1267, 30)]"
    by (simp add: A3_def x2 put_pairs_def spec_Write_pairs_def traits_IX86(3))
  have o3: "\<not> (l = 0 \<and> i = 243) \<Longrightarrow> A3 l i = []" for l i
    using o2[of l i] by (auto simp: A3_def put_pairs_def held_within_def)
  have g3: "get_Slot s3 0 243 =
              \<lparr>Lock = POPULATED, Main = (243, 10), Collisions = [(1000, 20), (1267, 30)]\<rparr>"
    using map_inv_slot[OF m3 ib3] by (simp add: x3 slot_inv_Cons)
  note t3 = slot_invariant_preserved[OF m3, of ?T 1000 0]
  have r3: "Read_map ?T s3 1000 = s3" using t3 by blast

  (* Delete(1000): one occupant among several *)
  note a3 = key_address_243(2)[OF L3]
  from Delete_returns[OF map_inv_lock[OF m3] a3 ib3]
  obtain d4 s4 where e4: "Delete ?T s3 1000 = Inr (d4, s4)" and L4: "LayerLastIdx s4 = 0"
    and ib4: "in_bounds s4 0 243"
    by (auto simp: L3)
  define A4 where "A4 = put_pairs A3 0 243 (spec_Delete_pairs (Pred ?T) 1000 (A3 0 243))"
  from t3 a3 e4
  have m4: "map_inv s4 A4"
    and dd4: "d4 \<longleftrightarrow> find_if (\<lambda>KeyVal. Pred ?T (fst KeyVal) 1000) (A3 0 243) < length (A3 0 243)"
    unfolding A4_def by blast+
  have d4: "d4" unfolding dd4 by (simp add: x3 traits_IX86(3))
  have x4: "A4 0 243 = [(243, 10), (1267, 30)]"
    by (simp add: A4_def x3 put_pairs_def spec_Delete_pairs_def traits_IX86(3))
  have o4: "\<not> (l = 0 \<and> i = 243) \<Longrightarrow> A4 l i = []" for l i
    using o3[of l i] by (auto simp: A4_def put_pairs_def)
  have g4: "get_Slot s4 0 243 = \<lparr>Lock = POPULATED, Main = (243, 10), Collisions = [(1267, 30)]\<rparr>"
    using map_inv_slot[OF m4 ib4] by (simp add: x4 slot_inv_Cons)

  (* Delete(243): the main pair of a slot with a collision *)
  note a4 = key_address_243(1)[OF L4]
  from Delete_returns[OF map_inv_lock[OF m4] a4 ib4]
  obtain d5 s5 where e5: "Delete ?T s4 243 = Inr (d5, s5)" and L5: "LayerLastIdx s5 = 0"
    and ib5: "in_bounds s5 0 243"
    by (auto simp: L4)
  define A5 where "A5 = put_pairs A4 0 243 (spec_Delete_pairs (Pred ?T) 243 (A4 0 243))"
  from slot_invariant_preserved[OF m4, of ?T 243 0] a4 e5
  have m5: "map_inv s5 A5"
    and dd5: "d5 \<longleftrightarrow> find_if (\<lambda>KeyVal. Pred ?T (fst KeyVal) 243) (A4 0 243) < length (A4 0 243)"
    unfolding A5_def by blast+
  have d5: "d5" unfolding dd5 by (simp add: x4 traits_IX86(3))
  have x5: "A5 0 243 = [(1267, 30)]"
    by (simp add: A5_def x4 put_pairs_def spec_Delete_pairs_def traits_IX86(3))
  have o5: "\<not> (l = 0 \<and> i = 243) \<Longrightarrow> A5 l i = []" for l i
    using o4[of l i] by (auto simp: A5_def put_pairs_def)
  have g5: "get_Slot s5 0 243 = \<lparr>Lock = POPULATED, Main = (1267, 30), Collisions = []\<rparr>"
    using map_inv_slot[OF m5 ib5] by (simp add: x5 slot_inv_Cons)

  (* Delete(1267): the last occupant *)
  note a5 = key_address_243(3)[OF L5]
  from Delete_returns[OF map_inv_lock[OF m5] a5 ib5]
  obtain d6 s6 where e6: "Delete ?T s5 1267 = Inr (d6, s6)" and ib6: "in_bounds s6 0 243"
    by (auto simp: L5)
  define A6 where "A6 = put_pairs A5 0 243 (spec_Delete_pairs (Pred ?T) 1267 (A5 0 243))"
  from slot_invariant_preserved[OF m5, of ?T 1267 0] a5 e6
  have m6: "map_inv s6 A6"
    and dd6: "d6 \<longleftrightarrow> find_if (\<lambda>KeyVal. Pred ?T (fst KeyVal) 1267) (A5 0 243) < length (A5 0 243)"
    unfolding A6_def by blast+
  have d6: "d6" unfolding dd6 by (simp add: x5 traits_IX86(3))
  have x6: "A6 0 243 = []"
    by (simp add: A6_def x5 put_pairs_def spec_Delete_pairs_def traits_IX86(3))
  have o6: "\<not> (l = 0 \<and> i = 243) \<Longrightarrow> A6 l i = []" for l i
    using o5[of l i] by (auto simp: A6_def put_pairs_def)
  have "A6 l i = []" for l i using x6 o6[of l i] by (cases "l = 0 \<and> i = 243") auto
  then have A6: "A6 = (\<lambda>l i. [])" by (simp add: fun_eq_iff)
  have g6: "Lock (get_Slot s6 0 243) = EMPTY"
    using map_inv_slot[OF m6 ib6] by (simp add: x6 slot_inv_Nil)
  show ?thesis
    using m0 m6
    by (simp add: c w1 w2 w3 g3 r3 e4 d4 g4 e5 d5 g5 e6 d6 g6 A0_def A6)
qed


end
